theory Spec2Isabelle
  imports Main "HOL-Library.Word"
begin

section \<open>The buffer cache of kernel/bio.c\<close>

text \<open>
  The cache is the global \<open>bcache\<close>: a pool \<open>buf[NBUF]\<close> of buffers and, for each of the
  \<open>NBUCKET\<close> hash buckets, a dummy head \<open>head[i]\<close> whose \<open>out\<close> pointer starts a singly
  linked list threaded through the \<open>out\<close> fields of the buffers.

  A \<open>struct buf *\<close> is modelled as an index into the pool (\<open>None\<close> is the null pointer), so
  that the aliasing between list links and pool entries is kept as it is in the C code.
  The parameters \<open>M\<close> and \<open>N\<close> stand for the constants \<open>NBUCKET\<close> and \<open>NBUF\<close> of param.h.

  The bucket spinlocks (\<open>acquire\<close>/\<open>release\<close> on \<open>bcache.locks\<close>) only delimit critical
  sections. The model is sequential: every function runs its critical section in one step,
  and the spinlocks are therefore not part of the state. The sleep-lock of a buffer is
  part of the state, because \<open>bwrite\<close> and \<open>brelse\<close> test it.
\<close>

type_synonym uint = "32 word"

text \<open>
  Modelled from the spec: \<open>struct buf\<close> is declared in buf.h, which is not part of the
  sources at hand. The fields are the ones bio.c reads and writes; \<open>dev\<close>, \<open>blockno\<close> and
  \<open>refcnt\<close> are unsigned 32-bit integers, \<open>valid\<close> is an integer used as a flag, \<open>lock\<close> is
  the sleep-lock (the pid of its holder, or \<open>None\<close> when it is free), \<open>out\<close> is the
  forward link of the bucket list. The bytes of the block are not modelled.
\<close>

record buf =
  valid :: int
  dev :: uint
  blockno :: uint
  lock :: "nat option"
  refcnt :: uint
  out :: "nat option"

text \<open>
  The state: the two arrays of \<open>bcache\<close>, and the history of the calls
  \<open>virtio_disk_rw(b, write)\<close> made to the disk driver.
\<close>

record bcache =
  buf :: "buf list"
  head :: "nat option list"
  io :: "(nat \<times> bool) list"

text \<open>
  Modelled from the spec: the macro \<open>hash\<close> is defined in a header that is not part of the
  sources at hand. It maps a block number to a bucket index in \<open>[0, M)\<close> and depends on the
  block number alone; probing \<open>blockno + i\<close> visits the buckets \<open>b+1, b+2, \<dots>\<close> modulo \<open>M\<close>.
\<close>

definition hash :: "nat \<Rightarrow> uint \<Rightarrow> nat" where
  "hash M x = unat x mod M"

subsection \<open>Bucket lists: put and remove\<close>

definition put :: "nat \<Rightarrow> uint \<Rightarrow> nat \<Rightarrow> bcache \<Rightarrow> bcache" where
  "put M key val s =
     (let bkt = hash M key;
          s1 = s\<lparr>buf := (buf s)[val := (buf s ! val)\<lparr>out := head s ! bkt\<rparr>]\<rparr>
      in s1\<lparr>head := (head s1)[bkt := Some val]\<rparr>)"

text \<open>
  The loop of \<open>remove\<close>, with its two cursors \<open>e\<close> and \<open>pre\<close>. The loop may run forever on
  a cyclic list, hence the result \<open>None\<close> for a run that does not return. Dereferencing a
  null \<open>pre\<close> is a kernel fault, which ends in \<open>panic("kerneltrap")\<close>. When the loop ends
  without having met \<open>b\<close>, the function returns and the state is as it was.
\<close>

partial_function (option) remove_loop ::
  "nat \<Rightarrow> nat \<Rightarrow> nat option \<Rightarrow> nat option \<Rightarrow> bcache \<Rightarrow> (string + bcache) option" where
  "remove_loop M b e pre s =
     (case e of
        None \<Rightarrow> Some (Inr s)
      | Some ei \<Rightarrow>
          if ei = b then
            (if pre = e then
               (let s1 = s\<lparr>head := (head s)[hash M (blockno (buf s ! b)) := out (buf s ! ei)]\<rparr>
                in Some (Inr (s1\<lparr>buf := (buf s1)[ei := (buf s1 ! ei)\<lparr>out := None\<rparr>]\<rparr>)))
             else
               (case pre of
                  None \<Rightarrow> Some (Inl ''kerneltrap'')
                | Some pi \<Rightarrow>
                    (let s1 = s\<lparr>buf := (buf s)[pi := (buf s ! pi)\<lparr>out := out (buf s ! ei)\<rparr>]\<rparr>
                     in Some (Inr (s1\<lparr>buf := (buf s1)[ei := (buf s1 ! ei)\<lparr>out := None\<rparr>]\<rparr>)))))
          else if pre \<noteq> e then
            (case pre of
               None \<Rightarrow> Some (Inl ''kerneltrap'')
             | Some pi \<Rightarrow> remove_loop M b (out (buf s ! ei)) (out (buf s ! pi)) s)
          else remove_loop M b (out (buf s ! ei)) pre s)"

declare remove_loop.simps [code]

definition remove :: "nat \<Rightarrow> nat \<Rightarrow> bcache \<Rightarrow> (string + bcache) option" where
  "remove M b s =
     remove_loop M b (head s ! hash M (blockno (buf s ! b)))
       (head s ! hash M (blockno (buf s ! b))) s"

subsection \<open>Initialisation\<close>

text \<open>
  \<open>bcache\<close> is a global without initialiser, so the C runtime hands \<open>binit\<close> a zeroed
  structure: \<open>binit\<close> itself does not write \<open>dev\<close>, \<open>blockno\<close>, \<open>valid\<close> or \<open>refcnt\<close>.
\<close>

definition zeroed :: "nat \<Rightarrow> nat \<Rightarrow> bcache" where
  "zeroed M N =
     \<lparr>buf = replicate N \<lparr>valid = 0, dev = 0, blockno = 0, lock = None, refcnt = 0, out = None\<rparr>,
      head = replicate M None, io = []\<rparr>"

definition binit_buf :: "nat \<Rightarrow> nat \<Rightarrow> bcache \<Rightarrow> bcache" where
  "binit_buf M b s =
     put M 0 b (s\<lparr>buf := (buf s)[b := (buf s ! b)\<lparr>lock := None, out := None\<rparr>]\<rparr>)"

definition binit :: "nat \<Rightarrow> nat \<Rightarrow> bcache \<Rightarrow> bcache" where
  "binit M N s =
     fold (binit_buf M) [0..<N]
       (fold (\<lambda>i s. s\<lparr>head := (head s)[i := None]\<rparr>) [0..<M] s)"

definition boot :: "nat \<Rightarrow> nat \<Rightarrow> bcache" where
  "boot M N = binit M N (zeroed M N)"

subsection \<open>bget\<close>

datatype outcome = Panic string | Blocked bcache nat | Held bcache nat

text \<open>
  Modelled from the spec: the sleep-lock primitives live in sleeplock.c, which is not part
  of the sources at hand. \<open>acquiresleep\<close> takes a free lock for the caller and otherwise
  puts the caller to sleep (outcome \<open>Blocked\<close>, with the state the caller leaves behind);
  \<open>holdingsleep\<close> tells whether the caller is the holder; \<open>releasesleep\<close> frees the lock.
\<close>

definition acquiresleep :: "nat \<Rightarrow> nat \<Rightarrow> bcache \<Rightarrow> outcome" where
  "acquiresleep pid b s =
     (if lock (buf s ! b) = None
      then Held (s\<lparr>buf := (buf s)[b := (buf s ! b)\<lparr>lock := Some pid\<rparr>]\<rparr>) b
      else Blocked s b)"

definition holdingsleep :: "nat \<Rightarrow> nat \<Rightarrow> bcache \<Rightarrow> bool" where
  "holdingsleep pid b s = (lock (buf s ! b) = Some pid)"

definition releasesleep :: "nat \<Rightarrow> bcache \<Rightarrow> bcache" where
  "releasesleep b s = s\<lparr>buf := (buf s)[b := (buf s ! b)\<lparr>lock := None\<rparr>]\<rparr>"

text \<open>The first loop of \<open>bget\<close>: is the block already cached?\<close>

partial_function (option) scan_hit ::
  "uint \<Rightarrow> uint \<Rightarrow> nat option \<Rightarrow> bcache \<Rightarrow> nat option option" where
  "scan_hit d bn b s =
     (case b of
        None \<Rightarrow> Some None
      | Some i \<Rightarrow>
          if dev (buf s ! i) = d \<and> blockno (buf s ! i) = bn then Some (Some i)
          else scan_hit d bn (out (buf s ! i)) s)"

declare scan_hit.simps [code]

text \<open>The scan for a buffer with \<open>refcnt == 0\<close>, used on the own and on the probed bucket.\<close>

partial_function (option) scan_free :: "nat option \<Rightarrow> bcache \<Rightarrow> nat option option" where
  "scan_free b s =
     (case b of
        None \<Rightarrow> Some None
      | Some i \<Rightarrow>
          if refcnt (buf s ! i) \<noteq> 0 then scan_free (out (buf s ! i)) s
          else Some (Some i))"

declare scan_free.simps [code]

text \<open>The four assignments that bind a free buffer to \<open>(dev, blockno)\<close>.\<close>

definition claim :: "uint \<Rightarrow> uint \<Rightarrow> nat \<Rightarrow> bcache \<Rightarrow> bcache" where
  "claim d bn b s =
     s\<lparr>buf := (buf s)[b := (buf s ! b)\<lparr>valid := 0, dev := d, blockno := bn, refcnt := 1\<rparr>]\<rparr>"

text \<open>
  The third loop: probe the buckets of \<open>blockno + i\<close> for \<open>i = 1, \<dots>, NBUCKET - 1\<close>.
  \<open>blockno + i\<close> is unsigned 32-bit arithmetic and wraps around.
\<close>

function steal :: "nat \<Rightarrow> nat \<Rightarrow> uint \<Rightarrow> uint \<Rightarrow> nat \<Rightarrow> bcache \<Rightarrow> outcome option" where
  "steal M pid d bn i s =
     (if i < M then
        (if hash M bn = hash M (bn + of_nat i) then Some (Panic (''no buffer'' @ [CHR 0x0A]))
         else
           (case scan_free (head s ! hash M (bn + of_nat i)) s of
              None \<Rightarrow> None
            | Some (Some b) \<Rightarrow>
                (case remove M b s of
                   None \<Rightarrow> None
                 | Some (Inl e) \<Rightarrow> Some (Panic e)
                 | Some (Inr s1) \<Rightarrow> Some (acquiresleep pid b (put M bn b (claim d bn b s1))))
            | Some None \<Rightarrow> steal M pid d bn (i + 1) s))
      else Some (Panic ''bget: no buffers''))"
  by pat_completeness auto
termination
  by (relation "measure (\<lambda>(M, pid, d, bn, i, s). M - i)") auto

declare steal.simps [simp del]

definition bget :: "nat \<Rightarrow> nat \<Rightarrow> uint \<Rightarrow> uint \<Rightarrow> bcache \<Rightarrow> outcome option" where
  "bget M pid d bn s =
     (case scan_hit d bn (head s ! hash M bn) s of
        None \<Rightarrow> None
      | Some (Some b) \<Rightarrow>
          Some (acquiresleep pid b
                  (s\<lparr>buf := (buf s)[b := (buf s ! b)\<lparr>refcnt := refcnt (buf s ! b) + 1\<rparr>]\<rparr>))
      | Some None \<Rightarrow>
          (case scan_free (head s ! hash M bn) s of
             None \<Rightarrow> None
           | Some (Some b) \<Rightarrow> Some (acquiresleep pid b (claim d bn b s))
           | Some None \<Rightarrow> steal M pid d bn 1 s))"

text \<open>The state carried by an outcome of \<open>bget\<close> or \<open>bread\<close> that is not a panic.\<close>

fun the_held :: "outcome option \<Rightarrow> bcache" where
  "the_held (Some (Held s b)) = s"
| "the_held (Some (Blocked s b)) = s"
| "the_held _ = zeroed 0 0"

subsection \<open>bread, bwrite, brelse, bpin, bunpin\<close>

text \<open>
  Modelled from the spec: the disk driver is not part of the sources at hand. The call
  \<open>virtio_disk_rw(b, write)\<close> is synchronous; the model records it.
\<close>

definition virtio_disk_rw :: "nat \<Rightarrow> bool \<Rightarrow> bcache \<Rightarrow> bcache" where
  "virtio_disk_rw b write s = s\<lparr>io := io s @ [(b, write)]\<rparr>"

text \<open>The part of \<open>bread\<close> after \<open>bget\<close> has returned.\<close>

definition bread_fill :: "nat \<Rightarrow> bcache \<Rightarrow> bcache" where
  "bread_fill b s =
     (if valid (buf s ! b) = 0 then
        (let s1 = virtio_disk_rw b False s
         in s1\<lparr>buf := (buf s1)[b := (buf s1 ! b)\<lparr>valid := 1\<rparr>]\<rparr>)
      else s)"

definition bread :: "nat \<Rightarrow> nat \<Rightarrow> uint \<Rightarrow> uint \<Rightarrow> bcache \<Rightarrow> outcome option" where
  "bread M pid d bn s =
     (case bget M pid d bn s of
        None \<Rightarrow> None
      | Some (Panic e) \<Rightarrow> Some (Panic e)
      | Some (Blocked s1 b) \<Rightarrow> Some (Blocked s1 b)
      | Some (Held s1 b) \<Rightarrow> Some (Held (bread_fill b s1) b))"

text \<open>
  A call of \<open>bread\<close> that went to sleep in \<open>acquiresleep\<close> goes on from there when it
  runs again: it takes the sleep-lock if it is free and sleeps again otherwise; with the
  lock, \<open>bget\<close> returns the buffer and \<open>bread\<close> tests the \<open>valid\<close> flag.
\<close>

definition bread_resume :: "nat \<Rightarrow> nat \<Rightarrow> bcache \<Rightarrow> outcome" where
  "bread_resume pid b s =
     (case acquiresleep pid b s of
        Panic e \<Rightarrow> Panic e
      | Blocked s1 b1 \<Rightarrow> Blocked s1 b1
      | Held s1 b1 \<Rightarrow> Held (bread_fill b1 s1) b1)"

definition bwrite :: "nat \<Rightarrow> nat \<Rightarrow> bcache \<Rightarrow> string + bcache" where
  "bwrite pid b s =
     (if \<not> holdingsleep pid b s then Inl ''bwrite''
      else Inr (virtio_disk_rw b True s))"

definition brelse :: "nat \<Rightarrow> nat \<Rightarrow> bcache \<Rightarrow> string + bcache" where
  "brelse pid b s =
     (if \<not> holdingsleep pid b s then Inl ''brelse''
      else
        (let s1 = releasesleep b s
         in Inr (s1\<lparr>buf := (buf s1)[b := (buf s1 ! b)\<lparr>refcnt := refcnt (buf s1 ! b) - 1\<rparr>]\<rparr>)))"

definition bpin :: "nat \<Rightarrow> bcache \<Rightarrow> bcache" where
  "bpin b s = s\<lparr>buf := (buf s)[b := (buf s ! b)\<lparr>refcnt := refcnt (buf s ! b) + 1\<rparr>]\<rparr>"

definition bunpin :: "nat \<Rightarrow> bcache \<Rightarrow> bcache" where
  "bunpin b s = s\<lparr>buf := (buf s)[b := (buf s ! b)\<lparr>refcnt := refcnt (buf s ! b) - 1\<rparr>]\<rparr>"

subsection \<open>The bucket lists as lists of pool indices\<close>

text \<open>
  \<open>walk n bs p\<close> follows the \<open>out\<close> links from \<open>p\<close> for at most \<open>n\<close> buffers and gives the
  buffers met, in order, when the null pointer is reached within that bound and all links
  stay inside the pool. A list without repetition has at most \<open>length bs\<close> elements, so
  \<open>bucket s k\<close> is \<open>Some\<close> of the list of bucket \<open>k\<close> exactly when that list is well formed.
\<close>

fun walk :: "nat \<Rightarrow> buf list \<Rightarrow> nat option \<Rightarrow> nat list option" where
  "walk n bs None = Some []"
| "walk 0 bs (Some x) = None"
| "walk (Suc n) bs (Some x) =
     (if x < length bs then map_option ((#) x) (walk n bs (out (bs ! x))) else None)"

definition bucket :: "bcache \<Rightarrow> nat \<Rightarrow> nat list option" where
  "bucket s k = walk (length (buf s)) (buf s) (head s ! k)"

definition members :: "bcache \<Rightarrow> nat \<Rightarrow> nat list" where
  "members s k = (case bucket s k of Some xs \<Rightarrow> xs | None \<Rightarrow> [])"

text \<open>The relational view of the same list, convenient in proofs.\<close>

fun chain :: "buf list \<Rightarrow> nat option \<Rightarrow> nat list \<Rightarrow> bool" where
  "chain bs p [] = (p = None)"
| "chain bs p (x # xs) = (p = Some x \<and> x < length bs \<and> chain bs (out (bs ! x)) xs)"

text \<open>
  What \<open>remove\<close> does to the state once its loop has met \<open>b\<close>: \<open>q\<close> is the buffer in front
  of \<open>b\<close> in the list, or \<open>None\<close> when \<open>b\<close> is the first one.
\<close>

definition unlink :: "nat \<Rightarrow> nat \<Rightarrow> nat option \<Rightarrow> bcache \<Rightarrow> bcache" where
  "unlink M b q s =
     (let s1 = (case q of
                  None \<Rightarrow> s\<lparr>head := (head s)[hash M (blockno (buf s ! b)) := out (buf s ! b)]\<rparr>
                | Some p \<Rightarrow> s\<lparr>buf := (buf s)[p := (buf s ! p)\<lparr>out := out (buf s ! b)\<rparr>]\<rparr>)
      in s1\<lparr>buf := (buf s1)[b := (buf s1 ! b)\<lparr>out := None\<rparr>]\<rparr>)"

text \<open>The state in which a call of \<open>remove\<close> that returns leaves the cache.\<close>

fun the_state :: "(string + bcache) option \<Rightarrow> bcache" where
  "the_state (Some (Inr s)) = s"
| "the_state _ = zeroed 0 0"

subsection \<open>Invariants and reachable states\<close>

text \<open>What the two scans of \<open>bget\<close> compute on a bucket list.\<close>

definition first_match :: "uint \<Rightarrow> uint \<Rightarrow> bcache \<Rightarrow> nat list \<Rightarrow> nat option" where
  "first_match d bn s xs = find (\<lambda>i. dev (buf s ! i) = d \<and> blockno (buf s ! i) = bn) xs"

definition first_free :: "bcache \<Rightarrow> nat list \<Rightarrow> nat option" where
  "first_free s xs = find (\<lambda>i. refcnt (buf s ! i) = 0) xs"

text \<open>Every bucket has a well-formed list.\<close>

definition linked :: "nat \<Rightarrow> bcache \<Rightarrow> bool" where
  "linked M s \<longleftrightarrow> 0 < M \<and> length (head s) = M \<and> (\<forall>k<M. bucket s k \<noteq> None)"

text \<open>Every buffer is in the list of the bucket of its block number, and in no other list.\<close>

definition placed :: "nat \<Rightarrow> bcache \<Rightarrow> bool" where
  "placed M s \<longleftrightarrow>
     (\<forall>b<length (buf s). b \<in> set (members s (hash M (blockno (buf s ! b))))) \<and>
     (\<forall>k<M. \<forall>b \<in> set (members s k). hash M (blockno (buf s ! b)) = k)"

text \<open>
  A buffer in use is the first buffer of its list that carries its \<open>(dev, blockno)\<close>: it is
  the one the first loop of \<open>bget\<close> finds.
\<close>

definition live_first :: "nat \<Rightarrow> bcache \<Rightarrow> bool" where
  "live_first M s \<longleftrightarrow>
     (\<forall>b<length (buf s). refcnt (buf s ! b) \<noteq> 0 \<longrightarrow>
        first_match (dev (buf s ! b)) (blockno (buf s ! b)) s
          (members s (hash M (blockno (buf s ! b)))) = Some b)"

text \<open>
  The buffer in front of \<open>b\<close> in a list (\<open>None\<close> when \<open>b\<close> is the first), and the state after
  the third loop of \<open>bget\<close> has moved the free buffer \<open>b\<close> to the bucket of \<open>bn\<close>.
\<close>

definition before :: "nat \<Rightarrow> nat list \<Rightarrow> nat option" where
  "before b xs =
     (if takeWhile (\<lambda>x. x \<noteq> b) xs = [] then None else Some (last (takeWhile (\<lambda>x. x \<noteq> b) xs)))"

definition moved :: "nat \<Rightarrow> uint \<Rightarrow> uint \<Rightarrow> nat \<Rightarrow> bcache \<Rightarrow> bcache" where
  "moved M d bn b s =
     put M bn b (claim d bn b
       (unlink M b (before b (members s (hash M (blockno (buf s ! b))))) s))"

text \<open>
  The probes \<open>i, \<dots>, j - 1\<close> of the third loop neither hit the caller's own bucket nor find
  a free buffer.
\<close>

definition barren :: "nat \<Rightarrow> uint \<Rightarrow> bcache \<Rightarrow> nat \<Rightarrow> nat \<Rightarrow> bool" where
  "barren M bn s i j \<longleftrightarrow>
     (\<forall>l. i \<le> l \<and> l < j \<longrightarrow>
        hash M (bn + of_nat l) \<noteq> hash M bn \<and>
        first_free s (members s (hash M (bn + of_nat l))) = None)"

text \<open>
  The states the cache can be in: \<open>binit\<close> on the zeroed structure, followed by any calls of
  the interface. A caller that sleeps in \<open>acquiresleep\<close> leaves its state behind and may
  later take the lock (\<open>wake\<close>) and finish \<open>bread\<close> (\<open>fill\<close>). The calls that count a
  reference down or pin a buffer are made on buffers in use only: \<open>brelse\<close>, \<open>bpin\<close> and
  \<open>bunpin\<close> on a buffer with \<open>refcnt = 0\<close> are not valid inputs.
\<close>

inductive reachable :: "nat \<Rightarrow> nat \<Rightarrow> bcache \<Rightarrow> bool" for M N where
  boot: "reachable M N (boot M N)"
| bget_held: "reachable M N s \<Longrightarrow> bget M pid d bn s = Some (Held s' b) \<Longrightarrow> reachable M N s'"
| bget_blocked: "reachable M N s \<Longrightarrow> bget M pid d bn s = Some (Blocked s' b) \<Longrightarrow> reachable M N s'"
| bread_held: "reachable M N s \<Longrightarrow> bread M pid d bn s = Some (Held s' b) \<Longrightarrow> reachable M N s'"
| bread_blocked: "reachable M N s \<Longrightarrow> bread M pid d bn s = Some (Blocked s' b) \<Longrightarrow> reachable M N s'"
| wake: "reachable M N s \<Longrightarrow> b < N \<Longrightarrow> acquiresleep pid b s = Held s' b \<Longrightarrow> reachable M N s'"
| fill: "reachable M N s \<Longrightarrow> b < N \<Longrightarrow> holdingsleep pid b s \<Longrightarrow> reachable M N (bread_fill b s)"
| bwrite: "reachable M N s \<Longrightarrow> b < N \<Longrightarrow> bwrite pid b s = Inr s' \<Longrightarrow> reachable M N s'"
| brelse: "reachable M N s \<Longrightarrow> b < N \<Longrightarrow> refcnt (buf s ! b) \<noteq> 0 \<Longrightarrow>
     brelse pid b s = Inr s' \<Longrightarrow> reachable M N s'"
| bpin: "reachable M N s \<Longrightarrow> b < N \<Longrightarrow> refcnt (buf s ! b) \<noteq> 0 \<Longrightarrow> reachable M N (bpin b s)"
| bunpin: "reachable M N s \<Longrightarrow> b < N \<Longrightarrow> refcnt (buf s ! b) \<noteq> 0 \<Longrightarrow> reachable M N (bunpin b s)"

text \<open>A buffer of the zeroed pool.\<close>

definition zero_buf :: buf where
  "zero_buf = \<lparr>valid = 0, dev = 0, blockno = 0, lock = None, refcnt = 0, out = None\<rparr>"

text \<open>The invariant of the cache with \<open>M\<close> buckets and \<open>N\<close> buffers.\<close>

definition cache_inv :: "nat \<Rightarrow> nat \<Rightarrow> bcache \<Rightarrow> bool" where
  "cache_inv M N s \<longleftrightarrow> length (buf s) = N \<and> linked M s \<and> placed M s \<and> live_first M s"



text \<open>
  The scenario of a pool of 4 buffers and 2 buckets in which one process has acquired the
  blocks 10, 11, 12 and 13 of device 1.
\<close>

definition full_pool :: bcache where
  "full_pool =
     the_held (bget 2 7 1 13 (the_held (bget 2 7 1 12 (the_held (bget 2 7 1 11
       (the_held (bget 2 7 1 10 (boot 2 4))))))))"

text \<open>
  The scenario of a contended block in the same pool: process 7 holds block 11 of device 1
  (acquired with \<open>bget\<close>, so the buffer has not been read yet); process 8 calls \<open>bread\<close>
  for the block and sleeps; then process 7 releases the buffer.
\<close>

definition held_block :: bcache where
  "held_block = the_held (bget 2 7 1 11 (boot 2 4))"

definition sleeper :: bcache where
  "sleeper = the_held (bread 2 8 1 11 held_block)"

definition released_block :: bcache where
  "released_block = the_state (Some (brelse 7 3 sleeper))"


section \<open>Properties\<close>

subsection \<open>Walking the links\<close>

lemma walk_links_cong:
  "map out bs' = map out bs \<Longrightarrow> walk n bs' p = walk n bs p"
proof (induction n bs p rule: walk.induct)
  case (3 n bs x)
  from "3.prems" have len: "length bs' = length bs"
    by (metis length_map)
  show ?case
  proof (cases "x < length bs")
    case True
    with "3.prems" len have "out (bs' ! x) = out (bs ! x)"
      by (metis nth_map)
    with True len "3.IH" "3.prems" show ?thesis by simp
  next
    case False
    with len show ?thesis by simp
  qed
qed simp_all

lemma bucket_links_cong:
  "map out (buf s') = map out (buf s) \<Longrightarrow> head s' = head s \<Longrightarrow> bucket s' k = bucket s k"
  unfolding bucket_def using walk_links_cong [of "buf s'" "buf s"]
  by (metis length_map)

lemma map_field_update:
  "(\<And>e. f (g e) = f e) \<Longrightarrow> map f (bs[b := g (bs ! b)]) = map f bs"
  by (cases "b < length bs") (simp_all add: map_update list_update_same_conv list_update_beyond)

subsection \<open>bwrite\<close>

text \<open>
  C6: \<open>bwrite\<close> panics when the caller does not hold the sleep-lock of the buffer. When the
  caller holds it, \<open>bwrite\<close> calls the disk driver with \<open>write = 1\<close> for this buffer and
  changes nothing else: the pool (hence \<open>valid\<close>, \<open>refcnt\<close>, \<open>dev\<close> and \<open>blockno\<close> of every
  buffer) and the bucket heads are as before.
\<close>

theorem bwrite_requires_lock:
  "(\<not> holdingsleep pid b s \<longrightarrow> bwrite pid b s = Inl ''bwrite'') \<and>
   (holdingsleep pid b s \<longrightarrow>
      (\<exists>s'. bwrite pid b s = Inr s' \<and> io s' = io s @ [(b, True)] \<and>
            buf s' = buf s \<and> head s' = head s))"
  by (simp add: bwrite_def virtio_disk_rw_def)

theorem bwrite_requires_lock_witness:
  "bwrite 8 3 (boot 2 4) = Inl ''bwrite'' \<and>
   (\<exists>s1. bget 2 7 1 10 (boot 2 4) = Some (Held s1 3) \<and> holdingsleep 7 3 s1 \<and>
      (\<exists>s'. bwrite 7 3 s1 = Inr s' \<and> io s' = io s1 @ [(3, True)] \<and>
            buf s' = buf s1 \<and> head s' = head s1))"
proof -
  have a: "\<not> holdingsleep 8 3 (boot 2 4)" by code_simp
  obtain s1 where s1: "bget 2 7 1 10 (boot 2 4) = Some (Held s1 3)" and h: "holdingsleep 7 3 s1"
  proof
    show "bget 2 7 1 10 (boot 2 4) = Some (Held (the_held (bget 2 7 1 10 (boot 2 4))) 3)"
      by code_simp
    show "holdingsleep 7 3 (the_held (bget 2 7 1 10 (boot 2 4)))" by code_simp
  qed
  from a h bwrite_requires_lock [of 8 3 "boot 2 4"] bwrite_requires_lock [of 7 3 s1] s1
  show ?thesis by blast
qed

subsection \<open>brelse\<close>

lemma unat_pred:
  fixes w :: uint
  shows "w \<noteq> 0 \<Longrightarrow> unat (w - 1) + 1 = unat w"
  using unat_minus_one [of w] unat_eq_zero [of w] by simp

text \<open>
  C7: a caller that holds the sleep-lock of buffer \<open>b\<close> gets the lock released and \<open>refcnt\<close>
  decremented by one (as an unsigned 32-bit subtraction; by exactly one as a number when
  \<open>refcnt\<close> was not zero, which is the precondition of a release). Nothing moves: the heads,
  every \<open>out\<close> link and so every bucket list, the fields \<open>dev\<close>, \<open>blockno\<close> and \<open>valid\<close> of
  every buffer, every other buffer and the disk history are as before. A caller that does
  not hold the lock gets \<open>panic("brelse")\<close>.
\<close>

theorem brelse_frame:
  "b < length (buf s) \<longrightarrow>
   (\<not> holdingsleep pid b s \<longrightarrow> brelse pid b s = Inl ''brelse'') \<and>
   (holdingsleep pid b s \<longrightarrow>
      (\<exists>s'. brelse pid b s = Inr s' \<and>
         lock (buf s' ! b) = None \<and>
         refcnt (buf s' ! b) = refcnt (buf s ! b) - 1 \<and>
         (refcnt (buf s ! b) \<noteq> 0 \<longrightarrow> unat (refcnt (buf s' ! b)) + 1 = unat (refcnt (buf s ! b))) \<and>
         head s' = head s \<and> io s' = io s \<and>
         map out (buf s') = map out (buf s) \<and>
         (\<forall>k. bucket s' k = bucket s k) \<and>
         map dev (buf s') = map dev (buf s) \<and>
         map blockno (buf s') = map blockno (buf s) \<and>
         map valid (buf s') = map valid (buf s) \<and>
         (\<forall>j. j \<noteq> b \<longrightarrow> buf s' ! j = buf s ! j)))"
proof (intro impI conjI)
  assume "\<not> holdingsleep pid b s"
  then show "brelse pid b s = Inl ''brelse''" by (simp add: brelse_def)
next
  assume b: "b < length (buf s)" and h: "holdingsleep pid b s"
  define s' where
    "s' = s\<lparr>buf := (buf s)[b := (buf s ! b)\<lparr>lock := None, refcnt := refcnt (buf s ! b) - 1\<rparr>]\<rparr>"
  from b h have r: "brelse pid b s = Inr s'"
    by (simp add: brelse_def releasesleep_def s'_def)
  have links: "map out (buf s') = map out (buf s)"
    unfolding s'_def by (simp add: map_update list_update_same_conv b)
  have hd: "head s' = head s" by (simp add: s'_def)
  have "\<forall>k. bucket s' k = bucket s k"
    using bucket_links_cong [OF links hd] by simp
  moreover have "map dev (buf s') = map dev (buf s)"
    "map blockno (buf s') = map blockno (buf s)" "map valid (buf s') = map valid (buf s)"
    unfolding s'_def by (simp_all add: map_update list_update_same_conv b)
  moreover have "refcnt (buf s ! b) \<noteq> 0 \<longrightarrow>
      unat (refcnt (buf s' ! b)) + 1 = unat (refcnt (buf s ! b))"
    using b unat_pred [of "refcnt (buf s ! b)"] by (simp add: s'_def)
  moreover have "lock (buf s' ! b) = None" "refcnt (buf s' ! b) = refcnt (buf s ! b) - 1"
    "io s' = io s" "\<forall>j. j \<noteq> b \<longrightarrow> buf s' ! j = buf s ! j"
    using b by (simp_all add: s'_def)
  ultimately show "\<exists>s'. brelse pid b s = Inr s' \<and>
         lock (buf s' ! b) = None \<and>
         refcnt (buf s' ! b) = refcnt (buf s ! b) - 1 \<and>
         (refcnt (buf s ! b) \<noteq> 0 \<longrightarrow> unat (refcnt (buf s' ! b)) + 1 = unat (refcnt (buf s ! b))) \<and>
         head s' = head s \<and> io s' = io s \<and>
         map out (buf s') = map out (buf s) \<and>
         (\<forall>k. bucket s' k = bucket s k) \<and>
         map dev (buf s') = map dev (buf s) \<and>
         map blockno (buf s') = map blockno (buf s) \<and>
         map valid (buf s') = map valid (buf s) \<and>
         (\<forall>j. j \<noteq> b \<longrightarrow> buf s' ! j = buf s ! j)"
    using r links hd by blast
qed

theorem brelse_frame_witness:
  "3 < length (buf (the_held (bget 2 7 1 10 (boot 2 4)))) \<and>
   holdingsleep 7 3 (the_held (bget 2 7 1 10 (boot 2 4))) \<and>
   \<not> holdingsleep 8 3 (the_held (bget 2 7 1 10 (boot 2 4))) \<and>
   brelse 8 3 (the_held (bget 2 7 1 10 (boot 2 4))) = Inl ''brelse'' \<and>
   (\<exists>s'. brelse 7 3 (the_held (bget 2 7 1 10 (boot 2 4))) = Inr s' \<and>
         lock (buf s' ! 3) = None \<and>
         refcnt (buf s' ! 3) = refcnt (buf (the_held (bget 2 7 1 10 (boot 2 4))) ! 3) - 1)"
proof -
  let ?s = "the_held (bget 2 7 1 10 (boot 2 4))"
  have 1: "3 < length (buf ?s)" by code_simp
  have 2: "holdingsleep 7 3 ?s" by code_simp
  have 3: "\<not> holdingsleep 8 3 ?s" by code_simp
  note a = brelse_frame [of 3 ?s 8, THEN mp, OF 1, THEN conjunct1, THEN mp, OF 3]
  note b = brelse_frame [of 3 ?s 7, THEN mp, OF 1, THEN conjunct2, THEN mp, OF 2]
  from b obtain s' where "brelse 7 3 ?s = Inr s'" "lock (buf s' ! 3) = None"
    "refcnt (buf s' ! 3) = refcnt (buf ?s ! 3) - 1"
    by (elim exE conjE)
  then have "\<exists>s'. brelse 7 3 ?s = Inr s' \<and> lock (buf s' ! 3) = None \<and>
      refcnt (buf s' ! 3) = refcnt (buf ?s ! 3) - 1"
    by (intro exI conjI)
  with 1 2 3 a show ?thesis by (intro conjI)
qed

subsection \<open>bpin and bunpin\<close>

text \<open>
  C8: \<open>bpin\<close> adds one to \<open>refcnt\<close> of the buffer and \<open>bunpin\<close> subtracts one; neither touches
  a sleep-lock, a link or a head, nor any other buffer. For a buffer held with \<open>refcnt = 1\<close>:
  after \<open>bpin\<close> the count is 2, \<open>brelse\<close> then succeeds, frees the lock and leaves the count
  at 1, and \<open>bunpin\<close> after that brings it to 0.
\<close>

theorem pin_unpin_refcnt:
  "b < length (buf s) \<longrightarrow>
     refcnt (buf (bpin b s) ! b) = refcnt (buf s ! b) + 1 \<and>
     refcnt (buf (bunpin b s) ! b) = refcnt (buf s ! b) - 1 \<and>
     (\<forall>f \<in> {bpin, bunpin}.
        map lock (buf (f b s)) = map lock (buf s) \<and>
        map out (buf (f b s)) = map out (buf s) \<and>
        head (f b s) = head s \<and> io (f b s) = io s \<and>
        (\<forall>k. bucket (f b s) k = bucket s k) \<and>
        (\<forall>j. j \<noteq> b \<longrightarrow> buf (f b s) ! j = buf s ! j)) \<and>
     (holdingsleep pid b s \<and> refcnt (buf s ! b) = 1 \<longrightarrow>
        unat (refcnt (buf (bpin b s) ! b)) = 2 \<and>
        (\<exists>s2. brelse pid b (bpin b s) = Inr s2 \<and>
           refcnt (buf s2 ! b) = 1 \<and> lock (buf s2 ! b) = None \<and>
           refcnt (buf (bunpin b s2) ! b) = 0))"
proof (intro impI)
  assume b: "b < length (buf s)"
  have pin: "map out (buf (bpin b s)) = map out (buf s)" "head (bpin b s) = head s"
    and unpin: "map out (buf (bunpin b s)) = map out (buf s)" "head (bunpin b s) = head s"
    by (simp_all add: bpin_def bunpin_def map_update list_update_same_conv b)
  have frame: "\<forall>f \<in> {bpin, bunpin}.
        map lock (buf (f b s)) = map lock (buf s) \<and>
        map out (buf (f b s)) = map out (buf s) \<and>
        head (f b s) = head s \<and> io (f b s) = io s \<and>
        (\<forall>k. bucket (f b s) k = bucket s k) \<and>
        (\<forall>j. j \<noteq> b \<longrightarrow> buf (f b s) ! j = buf s ! j)"
    using bucket_links_cong [OF pin] bucket_links_cong [OF unpin] b
    by (simp add: bpin_def bunpin_def map_update list_update_same_conv)
  have cnt: "refcnt (buf (bpin b s) ! b) = refcnt (buf s ! b) + 1"
    "refcnt (buf (bunpin b s) ! b) = refcnt (buf s ! b) - 1"
    using b by (simp_all add: bpin_def bunpin_def)
  have scen: "holdingsleep pid b s \<and> refcnt (buf s ! b) = 1 \<longrightarrow>
        unat (refcnt (buf (bpin b s) ! b)) = 2 \<and>
        (\<exists>s2. brelse pid b (bpin b s) = Inr s2 \<and>
           refcnt (buf s2 ! b) = 1 \<and> lock (buf s2 ! b) = None \<and>
           refcnt (buf (bunpin b s2) ! b) = 0)"
    using b by (simp add: bpin_def bunpin_def brelse_def holdingsleep_def releasesleep_def)
  from frame cnt scen
  show "refcnt (buf (bpin b s) ! b) = refcnt (buf s ! b) + 1 \<and>
     refcnt (buf (bunpin b s) ! b) = refcnt (buf s ! b) - 1 \<and>
     (\<forall>f \<in> {bpin, bunpin}.
        map lock (buf (f b s)) = map lock (buf s) \<and>
        map out (buf (f b s)) = map out (buf s) \<and>
        head (f b s) = head s \<and> io (f b s) = io s \<and>
        (\<forall>k. bucket (f b s) k = bucket s k) \<and>
        (\<forall>j. j \<noteq> b \<longrightarrow> buf (f b s) ! j = buf s ! j)) \<and>
     (holdingsleep pid b s \<and> refcnt (buf s ! b) = 1 \<longrightarrow>
        unat (refcnt (buf (bpin b s) ! b)) = 2 \<and>
        (\<exists>s2. brelse pid b (bpin b s) = Inr s2 \<and>
           refcnt (buf s2 ! b) = 1 \<and> lock (buf s2 ! b) = None \<and>
           refcnt (buf (bunpin b s2) ! b) = 0))"
    by blast
qed

theorem pin_unpin_refcnt_witness:
  "3 < length (buf (the_held (bget 2 7 1 10 (boot 2 4)))) \<and>
   holdingsleep 7 3 (the_held (bget 2 7 1 10 (boot 2 4))) \<and>
   refcnt (buf (the_held (bget 2 7 1 10 (boot 2 4))) ! 3) = 1 \<and>
   unat (refcnt (buf (bpin 3 (the_held (bget 2 7 1 10 (boot 2 4)))) ! 3)) = 2 \<and>
   (\<exists>s2. brelse 7 3 (bpin 3 (the_held (bget 2 7 1 10 (boot 2 4)))) = Inr s2 \<and>
      refcnt (buf s2 ! 3) = 1 \<and> lock (buf s2 ! 3) = None \<and>
      refcnt (buf (bunpin 3 s2) ! 3) = 0)"
proof -
  let ?s = "the_held (bget 2 7 1 10 (boot 2 4))"
  have 1: "3 < length (buf ?s)" by code_simp
  have 2: "holdingsleep 7 3 ?s \<and> refcnt (buf ?s ! 3) = 1" by code_simp
  note a = pin_unpin_refcnt [of 3 ?s 7, THEN mp, OF 1, THEN conjunct2, THEN conjunct2,
      THEN conjunct2, THEN mp, OF 2]
  from 1 2 a show ?thesis by (elim conjE, intro conjI) assumption+
qed

subsection \<open>Well-formed lists\<close>

lemma chain_functional: "chain bs p xs \<Longrightarrow> chain bs p ys \<Longrightarrow> xs = ys"
proof (induction xs arbitrary: p ys)
  case Nil
  then show ?case by (cases ys) auto
next
  case (Cons x xs)
  then show ?case by (cases ys) auto
qed

lemma chain_frame:
  "chain bs p xs \<Longrightarrow> length bs' = length bs \<Longrightarrow>
   (\<forall>x \<in> set xs. out (bs' ! x) = out (bs ! x)) \<Longrightarrow> chain bs' p xs"
  by (induction xs arbitrary: p) auto

lemma chain_suffix: "chain bs p (xs @ ys) \<Longrightarrow> \<exists>q. chain bs q ys"
  by (induction xs arbitrary: p) auto

lemma chain_head_notin_tail:
  assumes "chain bs p (x # xs)"
  shows "x \<notin> set xs"
proof
  assume "x \<in> set xs"
  then obtain as cs where xs: "xs = as @ x # cs"
    by (auto dest: split_list)
  from assms have tl: "chain bs (out (bs ! x)) xs" by simp
  with xs obtain q where "chain bs q (x # cs)"
    using chain_suffix [of bs "out (bs ! x)" as "x # cs"] by auto
  then have "chain bs (out (bs ! x)) cs" by simp
  with tl have "xs = cs" by (rule chain_functional)
  with xs show False by simp
qed

lemma chain_distinct: "chain bs p xs \<Longrightarrow> distinct xs"
proof (induction xs arbitrary: p)
  case (Cons x xs)
  from Cons.prems have "x \<notin> set xs" by (rule chain_head_notin_tail)
  moreover from Cons.prems have "chain bs (out (bs ! x)) xs" by simp
  then have "distinct xs" by (rule Cons.IH)
  ultimately show ?case by simp
qed simp

lemma chain_in_pool: "chain bs p xs \<Longrightarrow> x \<in> set xs \<Longrightarrow> x < length bs"
  by (induction xs arbitrary: p) auto

lemma chain_length:
  assumes "chain bs p xs"
  shows "length xs \<le> length bs"
proof -
  from assms have "set xs \<subseteq> {..<length bs}"
    by (auto dest: chain_in_pool)
  then have "card (set xs) \<le> card {..<length bs}"
    by (intro card_mono) auto
  with chain_distinct [OF assms] show ?thesis
    by (simp add: distinct_card)
qed

lemma walk_chain: "walk n bs p = Some xs \<Longrightarrow> chain bs p xs"
proof (induction n bs p arbitrary: xs rule: walk.induct)
  case (3 n bs x)
  then show ?case by (auto split: if_splits)
qed simp_all

lemma chain_walk: "chain bs p xs \<Longrightarrow> length xs \<le> n \<Longrightarrow> walk n bs p = Some xs"
proof (induction xs arbitrary: p n)
  case Nil
  then show ?case by simp
next
  case (Cons x xs)
  then obtain m where "n = Suc m" by (cases n) auto
  with Cons show ?case by auto
qed

lemma bucket_chain: "bucket s k = Some xs \<longleftrightarrow> chain (buf s) (head s ! k) xs"
  unfolding bucket_def
  using walk_chain chain_walk chain_length by blast

lemma members_chain: "chain (buf s) (head s ! k) xs \<Longrightarrow> members s k = xs"
  by (simp add: members_def bucket_chain [symmetric])

lemma bucket_members: "bucket s k \<noteq> None \<Longrightarrow> chain (buf s) (head s ! k) (members s k)"
  by (auto simp: members_def bucket_chain [symmetric])

subsection \<open>The two scans of bget\<close>

lemma scan_hit_chain:
  "chain (buf s) p xs \<Longrightarrow>
   scan_hit d bn p s = Some (find (\<lambda>i. dev (buf s ! i) = d \<and> blockno (buf s ! i) = bn) xs)"
proof (induction xs arbitrary: p)
  case Nil
  then show ?case by (simp add: scan_hit.simps)
next
  case (Cons x xs)
  from Cons.prems have p: "p = Some x" and tl: "chain (buf s) (out (buf s ! x)) xs"
    by simp_all
  show ?case
    unfolding p by (subst scan_hit.simps) (simp add: Cons.IH [OF tl])
qed

lemma scan_free_chain:
  "chain (buf s) p xs \<Longrightarrow> scan_free p s = Some (find (\<lambda>i. refcnt (buf s ! i) = 0) xs)"
proof (induction xs arbitrary: p)
  case Nil
  then show ?case by (simp add: scan_free.simps)
next
  case (Cons x xs)
  from Cons.prems have p: "p = Some x" and tl: "chain (buf s) (out (buf s ! x)) xs"
    by simp_all
  show ?case
    unfolding p by (subst scan_free.simps) (simp add: Cons.IH [OF tl])
qed

subsection \<open>put\<close>

lemma nth_upd: "bs[i := e] ! j = (if i = j \<and> j < length bs then e else bs ! j)"
  by (cases "i < length bs") (auto simp: nth_list_update list_update_beyond)

lemma chain_update_notin: "chain bs p xs \<Longrightarrow> b \<notin> set xs \<Longrightarrow> chain (bs[b := e]) p xs"
  by (erule chain_frame) (auto simp: nth_upd)

lemma put_fields:
  "buf (put M key b s) = (buf s)[b := (buf s ! b)\<lparr>out := head s ! hash M key\<rparr>]"
  "head (put M key b s) = (head s)[hash M key := Some b]"
  "io (put M key b s) = io s"
  by (simp_all add: put_def Let_def)

lemma put_chain_own:
  assumes "hash M key < length (head s)" "b < length (buf s)"
    and "chain (buf s) (head s ! hash M key) xs" "b \<notin> set xs"
  shows "chain (buf (put M key b s)) (head (put M key b s) ! hash M key) (b # xs)"
proof -
  have "chain ((buf s)[b := (buf s ! b)\<lparr>out := head s ! hash M key\<rparr>]) (head s ! hash M key) xs"
    using assms(3,4) by (rule chain_update_notin)
  with assms(1,2) show ?thesis by (simp add: put_fields)
qed

lemma put_chain_other:
  assumes "k \<noteq> hash M key" "chain (buf s) (head s ! k) xs" "b \<notin> set xs"
  shows "chain (buf (put M key b s)) (head (put M key b s) ! k) xs"
proof -
  have "chain ((buf s)[b := (buf s ! b)\<lparr>out := head s ! hash M key\<rparr>]) (head s ! k) xs"
    using assms(2,3) by (rule chain_update_notin)
  with assms(1) show ?thesis by (simp add: put_fields)
qed

subsection \<open>remove\<close>

lemma remove_loop_absent:
  assumes "chain (buf s) e zs" "b \<notin> set zs"
    and "pre = e \<or> (\<exists>p. pre = Some p \<and> out (buf s ! p) = e)"
  shows "remove_loop M b e pre s = Some (Inr s)"
  using assms
proof (induction zs arbitrary: e pre)
  case Nil
  then show ?case by (simp add: remove_loop.simps)
next
  case (Cons z zs)
  from Cons.prems have e: "e = Some z" and tl: "chain (buf s) (out (buf s ! z)) zs"
    and zb: "z \<noteq> b" and b: "b \<notin> set zs"
    by auto
  have next_pre: "Some z = out (buf s ! z) \<or> (\<exists>p. Some z = Some p \<and> out (buf s ! p) = out (buf s ! z))"
    by simp
  note IH = Cons.IH [OF tl b next_pre]
  from Cons.prems(3) show ?case
  proof
    assume "pre = e"
    with e zb IH show ?thesis by (subst remove_loop.simps) simp
  next
    assume "\<exists>p. pre = Some p \<and> out (buf s ! p) = e"
    then obtain p where "pre = Some p" "out (buf s ! p) = e" by blast
    with e zb IH show ?thesis by (subst remove_loop.simps) simp
  qed
qed

lemma remove_loop_member:
  assumes "chain (buf s) e (us @ b # vs)" "b \<notin> set us"
    and "pre = (case q of None \<Rightarrow> e | Some p \<Rightarrow> Some p)"
    and "\<forall>p. q = Some p \<longrightarrow> out (buf s ! p) = e \<and> p \<notin> set (us @ b # vs)"
  shows "remove_loop M b e pre s =
           Some (Inr (unlink M b (if us = [] then q else Some (last us)) s))"
  using assms
proof (induction us arbitrary: e pre q)
  case Nil
  then have e: "e = Some b" by simp
  show ?case
  proof (cases q)
    case None
    with Nil e show ?thesis
      by (subst remove_loop.simps) (simp add: unlink_def)
  next
    case (Some p)
    with Nil e have "pre = Some p" "p \<noteq> b" by auto
    with Some e show ?thesis
      by (subst remove_loop.simps) (simp add: unlink_def)
  qed
next
  case (Cons u us)
  from Cons.prems have e: "e = Some u" and ub: "u \<noteq> b" and b: "b \<notin> set us"
    and tl: "chain (buf s) (out (buf s ! u)) (us @ b # vs)"
    by auto
  from Cons.prems(1) have u: "u \<notin> set (us @ b # vs)"
    using chain_head_notin_tail [of "buf s" e u "us @ b # vs"] by simp
  have "remove_loop M b (out (buf s ! u)) (Some u) s =
          Some (Inr (unlink M b (if us = [] then Some u else Some (last us)) s))"
    by (rule Cons.IH [OF tl b, of "Some u" "Some u"]) (use u in simp_all)
  then have IH: "remove_loop M b (out (buf s ! u)) (Some u) s =
          Some (Inr (unlink M b (Some (last (u # us))) s))"
    by simp
  show ?case
  proof (cases q)
    case None
    with Cons.prems(3) e have "pre = Some u" by simp
    with e ub IH show ?thesis by (subst remove_loop.simps) simp
  next
    case (Some p)
    with Cons.prems(3,4) e have "pre = Some p" "p \<noteq> u" "out (buf s ! p) = Some u" by auto
    with e ub IH show ?thesis by (subst remove_loop.simps) simp
  qed
qed

lemma remove_absent:
  assumes "chain (buf s) (head s ! hash M (blockno (buf s ! b))) xs" "b \<notin> set xs"
  shows "remove M b s = Some (Inr s)"
  unfolding remove_def by (rule remove_loop_absent [OF assms]) simp

lemma remove_member:
  assumes "chain (buf s) (head s ! hash M (blockno (buf s ! b))) (us @ b # vs)"
  shows "remove M b s = Some (Inr (unlink M b (if us = [] then None else Some (last us)) s))"
proof -
  from chain_distinct [OF assms] have "b \<notin> set us" by simp
  then show ?thesis
    unfolding remove_def
    using remove_loop_member [OF assms, of _ None M] by simp
qed

lemma unlink_fields:
  "io (unlink M b q s) = io s"
  "length (buf (unlink M b q s)) = length (buf s)"
  "length (head (unlink M b q s)) = length (head s)"
  by (simp_all add: unlink_def Let_def split: option.splits)

lemma unlink_head_other:
  "k \<noteq> hash M (blockno (buf s ! b)) \<Longrightarrow> head (unlink M b q s) ! k = head s ! k"
  by (simp add: unlink_def Let_def split: option.splits)

lemma unlink_out_other:
  "x \<noteq> b \<Longrightarrow> q \<noteq> Some x \<Longrightarrow> out (buf (unlink M b q s) ! x) = out (buf s ! x)"
  by (cases q) (auto simp: unlink_def Let_def nth_upd)

lemma unlink_out_self:
  "b < length (buf s) \<Longrightarrow> out (buf (unlink M b q s) ! b) = None"
  by (cases q) (auto simp: unlink_def Let_def nth_upd)

lemma unlink_out_pred:
  "p < length (buf s) \<Longrightarrow> p \<noteq> b \<Longrightarrow> out (buf (unlink M b (Some p) s) ! p) = out (buf s ! b)"
  by (auto simp: unlink_def Let_def nth_upd)

lemma unlink_meta:
  "(buf (unlink M b q s) ! x)\<lparr>out := None\<rparr> = (buf s ! x)\<lparr>out := None\<rparr>"
  by (cases q) (auto simp: unlink_def Let_def nth_upd)

lemma unlink_chain_other:
  assumes "chain (buf s) p xs" "b \<notin> set xs" "\<forall>x. q = Some x \<longrightarrow> x \<notin> set xs"
  shows "chain (buf (unlink M b q s)) p xs"
proof (rule chain_frame [OF assms(1)])
  show "length (buf (unlink M b q s)) = length (buf s)" by (rule unlink_fields)
  show "\<forall>x\<in>set xs. out (buf (unlink M b q s) ! x) = out (buf s ! x)"
    using assms(2,3) by (auto intro!: unlink_out_other)
qed

lemma unlink_chain_after:
  assumes "chain (buf s) p (us @ u # b # vs)"
  shows "chain (buf (unlink M b (Some u) s)) p (us @ u # vs)"
  using assms
proof (induction us arbitrary: p)
  case Nil
  from chain_distinct [OF Nil] have d: "u \<noteq> b" "u \<notin> set vs" "b \<notin> set vs" by auto
  from Nil have p: "p = Some u" "u < length (buf s)" and ob: "out (buf s ! u) = Some b"
    and tl: "chain (buf s) (out (buf s ! b)) vs"
    by auto
  have "chain (buf (unlink M b (Some u) s)) (out (buf s ! b)) vs"
    by (rule unlink_chain_other [OF tl]) (use d in auto)
  with p d show ?case by (simp add: unlink_fields unlink_out_pred)
next
  case (Cons x us)
  from chain_distinct [OF Cons.prems] have d: "x \<noteq> b" "x \<noteq> u" by auto
  from Cons.prems have p: "p = Some x" "x < length (buf s)"
    and tl: "chain (buf s) (out (buf s ! x)) (us @ u # b # vs)"
    by auto
  from Cons.IH [OF tl] p d show ?case
    by (simp add: unlink_fields unlink_out_other)
qed

lemma unlink_chain_own:
  assumes "chain (buf s) (head s ! k) (us @ b # vs)"
    and "k = hash M (blockno (buf s ! b))" "k < length (head s)"
  shows "chain (buf (unlink M b (if us = [] then None else Some (last us)) s))
           (head (unlink M b (if us = [] then None else Some (last us)) s) ! k) (us @ vs)"
proof (cases "us = []")
  case True
  with assms(1) have tl: "chain (buf s) (out (buf s ! b)) vs" by simp
  from chain_distinct [OF assms(1)] have "b \<notin> set vs" by simp
  with tl have "chain (buf (unlink M b None s)) (out (buf s ! b)) vs"
    by (intro unlink_chain_other) auto
  moreover have "head (unlink M b None s) ! k = out (buf s ! b)"
    using assms(2,3) by (simp add: unlink_def Let_def)
  ultimately show ?thesis using True by simp
next
  case False
  then obtain ws u where us: "us = ws @ [u]"
    by (metis rev_exhaust)
  from assms(1) have "chain (buf s) (head s ! k) (ws @ u # b # vs)" by (simp add: us)
  then have "chain (buf (unlink M b (Some u) s)) (head s ! k) (ws @ u # vs)"
    by (rule unlink_chain_after)
  moreover have "head (unlink M b (Some u) s) = head s"
    by (simp add: unlink_def Let_def)
  ultimately show ?thesis by (simp add: us)
qed

lemma remove_effect:
  assumes "bucket s (hash M (blockno (buf s ! b))) = Some xs"
    and "hash M (blockno (buf s ! b)) < length (head s)"
  shows "(b \<notin> set xs \<longrightarrow> remove M b s = Some (Inr s)) \<and>
         (b \<in> set xs \<longrightarrow>
            (\<exists>s'. remove M b s = Some (Inr s') \<and>
               bucket s' (hash M (blockno (buf s ! b))) = Some (remove1 b xs) \<and>
               out (buf s' ! b) = None \<and> io s' = io s \<and>
               (\<forall>x. (buf s' ! x)\<lparr>out := None\<rparr> = (buf s ! x)\<lparr>out := None\<rparr>) \<and>
               (\<forall>k ys. k \<noteq> hash M (blockno (buf s ! b)) \<and> bucket s k = Some ys \<and>
                   set ys \<inter> set xs = {} \<longrightarrow> bucket s' k = Some ys)))"
proof (intro conjI impI)
  let ?k = "hash M (blockno (buf s ! b))"
  from assms(1) have ch: "chain (buf s) (head s ! ?k) xs" by (simp add: bucket_chain)
  {
    assume "b \<notin> set xs"
    with ch show "remove M b s = Some (Inr s)" by (rule remove_absent)
  }
  assume "b \<in> set xs"
  then obtain us vs where xs: "xs = us @ b # vs" and bus: "b \<notin> set us"
    by (auto dest: split_list_first)
  let ?q = "if us = [] then None else Some (last us)"
  let ?s' = "unlink M b ?q s"
  from ch have r: "remove M b s = Some (Inr ?s')"
    unfolding xs by (rule remove_member)
  from ch have b: "b < length (buf s)" by (auto simp: xs dest: chain_in_pool)
  have own: "bucket ?s' ?k = Some (remove1 b xs)"
    using unlink_chain_own [OF ch [unfolded xs] refl assms(2)] bus
    by (simp add: bucket_chain xs remove1_append)
  have other: "bucket ?s' k = Some ys"
    if "k \<noteq> ?k" "bucket s k = Some ys" "set ys \<inter> set xs = {}" for k ys
  proof -
    from that(2) have "chain (buf s) (head s ! k) ys" by (simp add: bucket_chain)
    then have "chain (buf ?s') (head s ! k) ys"
      using that(3) by (intro unlink_chain_other) (auto simp: xs)
    with that(1) show ?thesis
      by (simp add: bucket_chain unlink_head_other)
  qed
  from r own other unlink_out_self [OF b] unlink_fields(1) unlink_meta
  show "\<exists>s'. remove M b s = Some (Inr s') \<and>
               bucket s' ?k = Some (remove1 b xs) \<and>
               out (buf s' ! b) = None \<and> io s' = io s \<and>
               (\<forall>x. (buf s' ! x)\<lparr>out := None\<rparr> = (buf s ! x)\<lparr>out := None\<rparr>) \<and>
               (\<forall>k ys. k \<noteq> ?k \<and> bucket s k = Some ys \<and>
                   set ys \<inter> set xs = {} \<longrightarrow> bucket s' k = Some ys)"
    by (intro exI [of _ ?s']) simp
qed

text \<open>
  C4, as the code has it: \<open>remove\<close> has no failure path. Let \<open>xs\<close> be the well-formed list of
  the bucket that \<open>remove\<close> scans for \<open>b\<close>, the bucket of \<open>hash(b->blockno)\<close>. When \<open>b\<close> is not
  in \<open>xs\<close>, \<open>remove\<close> returns and the state is unchanged. When \<open>b\<close> is in \<open>xs\<close>, \<open>remove\<close>
  returns, the list of that bucket is \<open>xs\<close> without \<open>b\<close> in the same order, \<open>b->out\<close> is null,
  no field other than \<open>out\<close> of any buffer has changed, and every bucket list that shares
  no buffer with \<open>xs\<close> is as before.
\<close>

theorem remove_unlinks_member:
  assumes "bucket s (hash M (blockno (buf s ! b))) = Some xs"
    and "hash M (blockno (buf s ! b)) < length (head s)"
  shows "(b \<notin> set xs \<longrightarrow> remove M b s = Some (Inr s)) \<and>
         (b \<in> set xs \<longrightarrow>
            (\<exists>s'. remove M b s = Some (Inr s') \<and>
               bucket s' (hash M (blockno (buf s ! b))) = Some (remove1 b xs) \<and>
               out (buf s' ! b) = None \<and> io s' = io s \<and>
               (\<forall>x. (buf s' ! x)\<lparr>out := None\<rparr> = (buf s ! x)\<lparr>out := None\<rparr>) \<and>
               (\<forall>k ys. k \<noteq> hash M (blockno (buf s ! b)) \<and> bucket s k = Some ys \<and>
                   set ys \<inter> set xs = {} \<longrightarrow> bucket s' k = Some ys)))"
  by (rule remove_effect [OF assms])

theorem remove_unlinks_member_witness:
  "bucket (boot 2 4) (hash 2 (blockno (buf (boot 2 4) ! 2))) = Some [3, 2, 1, 0] \<and>
   hash 2 (blockno (buf (boot 2 4) ! 2)) < length (head (boot 2 4)) \<and>
   (\<exists>s'. remove 2 2 (boot 2 4) = Some (Inr s') \<and>
      bucket s' (hash 2 (blockno (buf (boot 2 4) ! 2))) = Some (remove1 2 [3, 2, 1, 0]) \<and>
      out (buf s' ! 2) = None \<and> io s' = io (boot 2 4))"
proof -
  have 1: "bucket (boot 2 4) (hash 2 (blockno (buf (boot 2 4) ! 2))) = Some [3, 2, 1, 0]"
    by code_simp
  have 2: "hash 2 (blockno (buf (boot 2 4) ! 2)) < length (head (boot 2 4))"
    by code_simp
  have 3: "(2::nat) \<in> set [3, 2, 1, 0]" by simp
  note a = remove_unlinks_member [OF 1 2, THEN conjunct2, THEN mp, OF 3]
  from a obtain s' where "remove 2 2 (boot 2 4) = Some (Inr s')"
    "bucket s' (hash 2 (blockno (buf (boot 2 4) ! 2))) = Some (remove1 2 [3, 2, 1, 0])"
    "out (buf s' ! 2) = None" "io s' = io (boot 2 4)"
    by (elim exE conjE)
  then have "\<exists>s'. remove 2 2 (boot 2 4) = Some (Inr s') \<and>
      bucket s' (hash 2 (blockno (buf (boot 2 4) ! 2))) = Some (remove1 2 [3, 2, 1, 0]) \<and>
      out (buf s' ! 2) = None \<and> io s' = io (boot 2 4)"
    by (intro exI conjI)
  with 1 2 show ?thesis by (intro conjI)
qed

text \<open>
  C4 as stated fails: after slot 3 has been removed from bucket 0 of the freshly
  initialised cache (2 buckets, 4 buffers), it is in no list. A second \<open>remove\<close> of slot 3
  scans bucket 0, whose list is \<open>[2, 1, 0]\<close>, does not meet the slot, and returns with
  the state unchanged instead of failing.
\<close>

theorem remove_stray_returns:
  "bucket (the_state (remove 2 3 (boot 2 4)))
     (hash 2 (blockno (buf (the_state (remove 2 3 (boot 2 4))) ! 3))) = Some [2, 1, 0] \<and>
   remove 2 3 (the_state (remove 2 3 (boot 2 4))) =
     Some (Inr (the_state (remove 2 3 (boot 2 4))))"
  by code_simp

subsection \<open>The three phases of bget\<close>

lemma linked_chain: "linked M s \<Longrightarrow> k < M \<Longrightarrow> chain (buf s) (head s ! k) (members s k)"
  by (simp add: linked_def bucket_members)

lemma hash_less: "0 < M \<Longrightarrow> hash M x < M"
  by (simp add: hash_def)

lemma scan_hit_linked:
  "linked M s \<Longrightarrow> k < M \<Longrightarrow> scan_hit d bn (head s ! k) s = Some (first_match d bn s (members s k))"
  unfolding first_match_def by (rule scan_hit_chain) (rule linked_chain)

lemma scan_free_linked:
  "linked M s \<Longrightarrow> k < M \<Longrightarrow> scan_free (head s ! k) s = Some (first_free s (members s k))"
  unfolding first_free_def by (rule scan_free_chain) (rule linked_chain)

lemma before_split:
  assumes "b \<notin> set us"
  shows "before b (us @ b # vs) = (if us = [] then None else Some (last us))"
proof -
  from assms have "takeWhile (\<lambda>x. x \<noteq> b) (us @ b # vs) = us"
    by (subst takeWhile_append2) auto
  then show ?thesis by (simp add: before_def)
qed

lemma first_free_Some:
  "first_free s xs = Some b \<Longrightarrow> b \<in> set xs \<and> refcnt (buf s ! b) = 0"
  by (auto simp: first_free_def find_Some_iff)


lemma first_match_Some:
  "first_match d bn s xs = Some b \<Longrightarrow> b \<in> set xs \<and> dev (buf s ! b) = d \<and> blockno (buf s ! b) = bn"
  by (auto simp: first_match_def find_Some_iff)

lemma first_match_None:
  "first_match d bn s xs = None \<longleftrightarrow>
     (\<forall>x \<in> set xs. \<not> (dev (buf s ! x) = d \<and> blockno (buf s ! x) = bn))"
  by (auto simp: first_match_def find_None_iff)

lemma remove_placed:
  assumes "linked M s" "placed M s" "k < M" "b \<in> set (members s k)"
  shows "remove M b s =
           Some (Inr (unlink M b (before b (members s (hash M (blockno (buf s ! b))))) s))"
proof -
  from assms(2-4) have k: "hash M (blockno (buf s ! b)) = k" by (simp add: placed_def)
  from assms(4) obtain us vs where xs: "members s k = us @ b # vs" and bus: "b \<notin> set us"
    by (auto dest: split_list_first)
  from linked_chain [OF assms(1,3)] have "chain (buf s) (head s ! k) (us @ b # vs)"
    by (simp add: xs)
  then show ?thesis
    using remove_member [of s M b us vs] by (simp add: k xs before_split [OF bus])
qed

lemma steal_end: "M \<le> i \<Longrightarrow> steal M pid d bn i s = Some (Panic ''bget: no buffers'')"
  by (subst steal.simps) simp

lemma steal_collision:
  "i < M \<Longrightarrow> hash M (bn + of_nat i) = hash M bn \<Longrightarrow>
   steal M pid d bn i s = Some (Panic (''no buffer'' @ [CHR 0x0A]))"
  by (subst steal.simps) simp

lemma steal_next:
  assumes "linked M s" "i < M" "hash M (bn + of_nat i) \<noteq> hash M bn"
    and "first_free s (members s (hash M (bn + of_nat i))) = None"
  shows "steal M pid d bn i s = steal M pid d bn (i + 1) s"
proof -
  from assms(1) have "0 < M" by (simp add: linked_def)
  then have "hash M (bn + of_nat i) < M" by (rule hash_less)
  from scan_free_linked [OF assms(1) this] assms(2-4) show ?thesis
    by (subst steal.simps) simp
qed

lemma steal_found:
  assumes "linked M s" "placed M s" "i < M" "hash M (bn + of_nat i) \<noteq> hash M bn"
    and "first_free s (members s (hash M (bn + of_nat i))) = Some b"
  shows "steal M pid d bn i s = Some (acquiresleep pid b (moved M d bn b s))"
proof -
  from assms(1) have "0 < M" by (simp add: linked_def)
  then have k: "hash M (bn + of_nat i) < M" by (rule hash_less)
  from first_free_Some [OF assms(5)] have "b \<in> set (members s (hash M (bn + of_nat i)))"
    by simp
  from remove_placed [OF assms(1,2) k this] scan_free_linked [OF assms(1) k] assms(3-5)
  show ?thesis
    by (subst steal.simps) (simp add: moved_def)
qed

lemma steal_skip:
  assumes "linked M s" "barren M bn s i j" "i \<le> j" "j \<le> M"
  shows "steal M pid d bn i s = steal M pid d bn j s"
  using assms(2-4)
proof (induction "j - i" arbitrary: i)
  case 0
  then show ?case by simp
next
  case (Suc n)
  then have i: "i < j" "i < M" by auto
  with Suc.prems(1) have "hash M (bn + of_nat i) \<noteq> hash M bn"
    "first_free s (members s (hash M (bn + of_nat i))) = None"
    by (auto simp: barren_def)
  then have "steal M pid d bn i s = steal M pid d bn (i + 1) s"
    using i by (intro steal_next assms(1))
  moreover have "steal M pid d bn (i + 1) s = steal M pid d bn j s"
  proof (rule Suc.hyps(1))
    show "n = j - (i + 1)" using Suc.hyps(2) by simp
    show "barren M bn s (i + 1) j" using Suc.prems(1) by (auto simp: barren_def)
    show "i + 1 \<le> j" using i by simp
    show "j \<le> M" by (rule Suc.prems(3))
  qed
  ultimately show ?case by simp
qed

lemma barren_stop:
  assumes "i \<le> M"
  shows "barren M bn s i M \<or>
         (\<exists>j. i \<le> j \<and> j < M \<and> barren M bn s i j \<and>
            (hash M (bn + of_nat j) = hash M bn \<or>
             first_free s (members s (hash M (bn + of_nat j))) \<noteq> None))"
proof (cases "barren M bn s i M")
  case False
  define Q where "Q l \<longleftrightarrow> i \<le> l \<and> l < M \<and>
      (hash M (bn + of_nat l) = hash M bn \<or>
       first_free s (members s (hash M (bn + of_nat l))) \<noteq> None)" for l
  from False have "\<exists>l. Q l" by (auto simp: barren_def Q_def)
  then have Q: "Q (LEAST l. Q l)" by (rule LeastI_ex)
  have "barren M bn s i (LEAST l. Q l)"
    unfolding barren_def
  proof (intro allI impI)
    fix l assume l: "i \<le> l \<and> l < (LEAST l. Q l)"
    then have "\<not> Q l" using not_less_Least by blast
    moreover from l Q have "l < M" by (simp add: Q_def)
    ultimately show "hash M (bn + of_nat l) \<noteq> hash M bn \<and>
        first_free s (members s (hash M (bn + of_nat l))) = None"
      using l by (simp add: Q_def)
  qed
  with Q show ?thesis unfolding Q_def by blast
qed simp

text \<open>The outcome of \<open>bget\<close> on a state whose lists are well formed, phase by phase.\<close>

lemma bget_hit:
  assumes "linked M s" "first_match d bn s (members s (hash M bn)) = Some b"
  shows "bget M pid d bn s = Some (acquiresleep pid b (bpin b s))"
proof -
  from assms(1) have "hash M bn < M" by (simp add: linked_def hash_less)
  from scan_hit_linked [OF assms(1) this] assms(2) show ?thesis
    by (simp add: bget_def bpin_def)
qed

lemma bget_reuse:
  assumes "linked M s" "first_match d bn s (members s (hash M bn)) = None"
    and "first_free s (members s (hash M bn)) = Some b"
  shows "bget M pid d bn s = Some (acquiresleep pid b (claim d bn b s))"
proof -
  from assms(1) have "hash M bn < M" by (simp add: linked_def hash_less)
  from scan_hit_linked [OF assms(1) this] scan_free_linked [OF assms(1) this] assms(2,3)
  show ?thesis by (simp add: bget_def)
qed

lemma bget_steal:
  assumes "linked M s" "first_match d bn s (members s (hash M bn)) = None"
    and "first_free s (members s (hash M bn)) = None"
  shows "bget M pid d bn s = steal M pid d bn 1 s"
proof -
  from assms(1) have "hash M bn < M" by (simp add: linked_def hash_less)
  from scan_hit_linked [OF assms(1) this] scan_free_linked [OF assms(1) this] assms(2,3)
  show ?thesis by (simp add: bget_def)
qed

lemma steal_outcome:
  assumes "linked M s" "placed M s"
  shows "(barren M bn s 1 M \<and> steal M pid d bn 1 s = Some (Panic ''bget: no buffers'')) \<or>
         (\<exists>j. 1 \<le> j \<and> j < M \<and> barren M bn s 1 j \<and> hash M (bn + of_nat j) = hash M bn \<and>
            steal M pid d bn 1 s = Some (Panic (''no buffer'' @ [CHR 0x0A]))) \<or>
         (\<exists>j b. 1 \<le> j \<and> j < M \<and> barren M bn s 1 j \<and> hash M (bn + of_nat j) \<noteq> hash M bn \<and>
            first_free s (members s (hash M (bn + of_nat j))) = Some b \<and>
            steal M pid d bn 1 s = Some (acquiresleep pid b (moved M d bn b s)))"
proof -
  from assms(1) have M: "1 \<le> M" by (simp add: linked_def)
  from barren_stop [OF M, of bn s] show ?thesis
  proof (elim disjE exE conjE)
    assume b: "barren M bn s 1 M"
    with steal_skip [OF assms(1) b M order_refl, of pid d] steal_end [of M M pid d bn s]
    show ?thesis by simp
  next
    fix j
    assume j: "1 \<le> j" "j < M" and b: "barren M bn s 1 j"
      and c: "hash M (bn + of_nat j) = hash M bn"
    from j have "j \<le> M" by simp
    from steal_skip [OF assms(1) b j(1) this, of pid d] steal_collision [OF j(2) c, of pid d s] j b c
    show ?thesis by auto
  next
    fix j
    assume j: "1 \<le> j" "j < M" and b: "barren M bn s 1 j"
      and f: "first_free s (members s (hash M (bn + of_nat j))) \<noteq> None"
    from j have jM: "j \<le> M" by simp
    show ?thesis
    proof (cases "hash M (bn + of_nat j) = hash M bn")
      case True
      from steal_skip [OF assms(1) b j(1) jM, of pid d] steal_collision [OF j(2) True, of pid d s] j b True
      show ?thesis by auto
    next
      case False
      from f obtain x where x: "first_free s (members s (hash M (bn + of_nat j))) = Some x"
        by auto
      from steal_skip [OF assms(1) b j(1) jM, of pid d] steal_found [OF assms j(2) False x, of pid d]
        j b False x
      show ?thesis by auto
    qed
  qed
qed

subsection \<open>Updates that leave the links alone\<close>

lemma map_out_update: "out e = out (bs ! b) \<Longrightarrow> map out (bs[b := e]) = map out bs"
  by (cases "b < length bs") (simp_all add: map_update list_update_same_conv list_update_beyond)

lemma bucket_update:
  "out e = out (buf s ! b) \<Longrightarrow> bucket (s\<lparr>buf := (buf s)[b := e]\<rparr>) k = bucket s k"
  by (rule bucket_links_cong) (simp_all add: map_out_update)

lemma members_cong: "(\<And>k. bucket s' k = bucket s k) \<Longrightarrow> members s' k = members s k"
  by (simp add: members_def)

lemma bucket_bpin [simp]: "bucket (bpin b s) k = bucket s k"
  unfolding bpin_def by (rule bucket_update) simp

lemma bucket_bunpin [simp]: "bucket (bunpin b s) k = bucket s k"
  unfolding bunpin_def by (rule bucket_update) simp

lemma bucket_claim [simp]: "bucket (claim d bn b s) k = bucket s k"
  unfolding claim_def by (rule bucket_update) simp

lemma bucket_releasesleep [simp]: "bucket (releasesleep b s) k = bucket s k"
  unfolding releasesleep_def by (rule bucket_update) simp

lemma bucket_virtio [simp]: "bucket (virtio_disk_rw b w s) k = bucket s k"
  by (simp add: bucket_def virtio_disk_rw_def)

lemma bucket_bread_fill [simp]: "bucket (bread_fill b s) k = bucket s k"
proof (cases "valid (buf s ! b) = 0")
  case True
  then have "bread_fill b s = (virtio_disk_rw b False s)
      \<lparr>buf := (buf (virtio_disk_rw b False s))
         [b := (buf (virtio_disk_rw b False s) ! b)\<lparr>valid := 1\<rparr>]\<rparr>"
    by (simp add: bread_fill_def Let_def)
  moreover have "bucket \<dots> k = bucket (virtio_disk_rw b False s) k"
    by (rule bucket_update) simp
  ultimately show ?thesis by simp
next
  case False
  then show ?thesis by (simp add: bread_fill_def)
qed

lemma bucket_acquiresleep:
  "acquiresleep pid b s = Held s' b' \<or> acquiresleep pid b s = Blocked s' b' \<Longrightarrow>
   bucket s' k = bucket s k"
  by (auto simp: acquiresleep_def bucket_update split: if_splits)

lemma members_simps [simp]:
  "members (bpin b s) k = members s k"
  "members (bunpin b s) k = members s k"
  "members (claim d bn b s) k = members s k"
  "members (releasesleep b s) k = members s k"
  "members (virtio_disk_rw b w s) k = members s k"
  "members (bread_fill b s) k = members s k"
  by (simp_all add: members_def)

lemma members_acquiresleep:
  "acquiresleep pid b s = Held s' b' \<or> acquiresleep pid b s = Blocked s' b' \<Longrightarrow>
   members s' k = members s k"
  by (simp add: members_def bucket_acquiresleep)

text \<open>The fields of a buffer after each elementary update.\<close>

lemma acquiresleep_fields:
  assumes "acquiresleep pid b s = Held s' b' \<or> acquiresleep pid b s = Blocked s' b'"
  shows "b' = b" "length (buf s') = length (buf s)" "head s' = head s" "io s' = io s"
    "dev (buf s' ! x) = dev (buf s ! x)" "blockno (buf s' ! x) = blockno (buf s ! x)"
    "refcnt (buf s' ! x) = refcnt (buf s ! x)" "valid (buf s' ! x) = valid (buf s ! x)"
  using assms by (auto simp: acquiresleep_def nth_upd split: if_splits)

lemma bpin_fields:
  "length (buf (bpin b s)) = length (buf s)" "head (bpin b s) = head s" "io (bpin b s) = io s"
  "dev (buf (bpin b s) ! x) = dev (buf s ! x)" "blockno (buf (bpin b s) ! x) = blockno (buf s ! x)"
  "x \<noteq> b \<Longrightarrow> refcnt (buf (bpin b s) ! x) = refcnt (buf s ! x)"
  "b < length (buf s) \<Longrightarrow> refcnt (buf (bpin b s) ! b) = refcnt (buf s ! b) + 1"
  by (auto simp: bpin_def nth_upd)

lemma bunpin_fields:
  "length (buf (bunpin b s)) = length (buf s)" "head (bunpin b s) = head s"
  "dev (buf (bunpin b s) ! x) = dev (buf s ! x)"
  "blockno (buf (bunpin b s) ! x) = blockno (buf s ! x)"
  "x \<noteq> b \<Longrightarrow> refcnt (buf (bunpin b s) ! x) = refcnt (buf s ! x)"
  by (auto simp: bunpin_def nth_upd)

lemma claim_fields:
  "length (buf (claim d bn b s)) = length (buf s)" "head (claim d bn b s) = head s"
  "io (claim d bn b s) = io s"
  "x \<noteq> b \<Longrightarrow> buf (claim d bn b s) ! x = buf s ! x"
  "b < length (buf s) \<Longrightarrow> buf (claim d bn b s) ! b =
     (buf s ! b)\<lparr>valid := 0, dev := d, blockno := bn, refcnt := 1\<rparr>"
  by (auto simp: claim_def nth_upd)

lemma bread_fill_fields:
  "length (buf (bread_fill b s)) = length (buf s)" "head (bread_fill b s) = head s"
  "dev (buf (bread_fill b s) ! x) = dev (buf s ! x)"
  "blockno (buf (bread_fill b s) ! x) = blockno (buf s ! x)"
  "refcnt (buf (bread_fill b s) ! x) = refcnt (buf s ! x)"
  "lock (buf (bread_fill b s) ! x) = lock (buf s ! x)"
  by (auto simp: bread_fill_def virtio_disk_rw_def Let_def nth_upd)

lemma brelse_fields:
  assumes "brelse pid b s = Inr s'"
  shows "length (buf s') = length (buf s)" "head s' = head s"
    "dev (buf s' ! x) = dev (buf s ! x)" "blockno (buf s' ! x) = blockno (buf s ! x)"
    "x \<noteq> b \<Longrightarrow> refcnt (buf s' ! x) = refcnt (buf s ! x)"
    "members s' k = members s k"
proof -
  from assms have s': "s' = bunpin b (releasesleep b s)"
    by (auto simp: brelse_def bunpin_def Let_def split: if_splits)
  show "length (buf s') = length (buf s)" "head s' = head s"
    "dev (buf s' ! x) = dev (buf s ! x)" "blockno (buf s' ! x) = blockno (buf s ! x)"
    "x \<noteq> b \<Longrightarrow> refcnt (buf s' ! x) = refcnt (buf s ! x)"
    unfolding s' by (auto simp: bunpin_def releasesleep_def nth_upd)
  show "members s' k = members s k" unfolding s' by simp
qed

lemma bwrite_fields:
  assumes "bwrite pid b s = Inr s'"
  shows "buf s' = buf s" "head s' = head s" "members s' k = members s k"
proof -
  from assms have s': "s' = virtio_disk_rw b True s"
    by (auto simp: bwrite_def split: if_splits)
  show "buf s' = buf s" "head s' = head s" unfolding s' by (simp_all add: virtio_disk_rw_def)
  show "members s' k = members s k" unfolding s' by simp
qed

subsection \<open>Moving a free buffer to another bucket\<close>

lemma members_in_pool: "linked M s \<Longrightarrow> k < M \<Longrightarrow> x \<in> set (members s k) \<Longrightarrow> x < length (buf s)"
  by (auto dest: linked_chain chain_in_pool)

lemma members_distinct: "linked M s \<Longrightarrow> k < M \<Longrightarrow> distinct (members s k)"
  by (auto dest: linked_chain chain_distinct)

lemma placed_iff:
  assumes "linked M s"
  shows "placed M s \<longleftrightarrow>
     (\<forall>x<length (buf s). \<forall>k<M. x \<in> set (members s k) \<longleftrightarrow> hash M (blockno (buf s ! x)) = k)"
proof
  assume p: "placed M s"
  show "\<forall>x<length (buf s). \<forall>k<M. x \<in> set (members s k) \<longleftrightarrow> hash M (blockno (buf s ! x)) = k"
    using p unfolding placed_def by blast
next
  assume r: "\<forall>x<length (buf s). \<forall>k<M. x \<in> set (members s k) \<longleftrightarrow> hash M (blockno (buf s ! x)) = k"
  from assms have M: "0 < M" by (simp add: linked_def)
  show "placed M s"
    unfolding placed_def
  proof (intro conjI allI impI ballI)
    fix b assume "b < length (buf s)"
    with r hash_less [OF M] show "b \<in> set (members s (hash M (blockno (buf s ! b))))"
      by blast
  next
    fix k b assume "k < M" "b \<in> set (members s k)"
    with r members_in_pool [OF assms] show "hash M (blockno (buf s ! b)) = k"
      by blast
  qed
qed

lemma placed_member:
  "linked M s \<Longrightarrow> placed M s \<Longrightarrow> k < M \<Longrightarrow> x \<in> set (members s k) \<Longrightarrow>
   hash M (blockno (buf s ! x)) = k"
  by (simp add: placed_def)

lemma moved_fields:
  assumes "b < length (buf s)"
  shows "length (buf (moved M d bn b s)) = length (buf s)"
    "io (moved M d bn b s) = io s"
    "length (head (moved M d bn b s)) = length (head s)"
    "x \<noteq> b \<Longrightarrow> (buf (moved M d bn b s) ! x)\<lparr>out := None\<rparr> = (buf s ! x)\<lparr>out := None\<rparr>"
    "(buf (moved M d bn b s) ! b)\<lparr>out := None\<rparr> =
       (buf s ! b)\<lparr>valid := 0, dev := d, blockno := bn, refcnt := 1, out := None\<rparr>"
proof -
  let ?u = "unlink M b (before b (members s (hash M (blockno (buf s ! b))))) s"
  have len: "length (buf ?u) = length (buf s)" by (rule unlink_fields)
  show "length (buf (moved M d bn b s)) = length (buf s)"
    by (simp add: moved_def put_fields claim_fields unlink_fields)
  show "io (moved M d bn b s) = io s"
    by (simp add: moved_def put_fields claim_fields unlink_fields)
  show "length (head (moved M d bn b s)) = length (head s)"
    by (simp add: moved_def put_fields claim_fields unlink_fields)
  have "(buf (moved M d bn b s) ! x)\<lparr>out := None\<rparr> = (buf (claim d bn b ?u) ! x)\<lparr>out := None\<rparr>" for x
    by (simp add: moved_def put_fields nth_upd)
  note 1 = this
  show "(buf (moved M d bn b s) ! x)\<lparr>out := None\<rparr> = (buf s ! x)\<lparr>out := None\<rparr>" if "x \<noteq> b"
    using that unlink_meta [of M b _ s x] by (simp add: 1 claim_fields)
  have "(buf (claim d bn b ?u) ! b)\<lparr>out := None\<rparr> =
      (buf ?u ! b)\<lparr>out := None\<rparr>\<lparr>valid := 0, dev := d, blockno := bn, refcnt := 1\<rparr>"
    using assms len by (simp add: claim_fields)
  also have "(buf ?u ! b)\<lparr>out := None\<rparr> = (buf s ! b)\<lparr>out := None\<rparr>"
    by (rule unlink_meta)
  finally show "(buf (moved M d bn b s) ! b)\<lparr>out := None\<rparr> =
       (buf s ! b)\<lparr>valid := 0, dev := d, blockno := bn, refcnt := 1, out := None\<rparr>"
    by (simp add: 1)
qed

lemma moved_members:
  assumes "linked M s" "placed M s" "k' < M" "b \<in> set (members s k')" "k' \<noteq> hash M bn"
  shows "members (moved M d bn b s) (hash M bn) = b # members s (hash M bn)"
    and "members (moved M d bn b s) k' = remove1 b (members s k')"
    and "j < M \<Longrightarrow> j \<noteq> hash M bn \<Longrightarrow> j \<noteq> k' \<Longrightarrow> members (moved M d bn b s) j = members s j"
    and "linked M (moved M d bn b s)"
proof -
  from assms(1) have M: "0 < M" and hl: "length (head s) = M" by (simp_all add: linked_def)
  let ?k = "hash M bn"
  have k: "?k < M" by (rule hash_less [OF M])
  have hb: "hash M (blockno (buf s ! b)) = k'" by (rule placed_member [OF assms(1-4)])
  have b: "b < length (buf s)" by (rule members_in_pool [OF assms(1,3,4)])
  from assms(4) obtain us vs where xs: "members s k' = us @ b # vs" and bus: "b \<notin> set us"
    by (auto dest: split_list_first)
  from members_distinct [OF assms(1,3)] have bvs: "b \<notin> set vs" by (simp add: xs)
  let ?q = "if us = [] then None else Some (last us)"
  let ?u = "unlink M b ?q s"
  let ?c = "claim d bn b ?u"
  have mv: "moved M d bn b s = put M bn b ?c"
    by (simp add: moved_def hb xs before_split [OF bus])
  have disj: "x \<notin> set (members s j)" if "j < M" "j \<noteq> k'" "x \<in> set (members s k')" for j x
    using that placed_member [OF assms(1,2)] assms(3) by blast
  \<comment> \<open>the lists after unlink\<close>
  have ch: "chain (buf s) (head s ! k') (us @ b # vs)"
    using linked_chain [OF assms(1,3)] by (simp add: xs)
  have "k' < length (head s)" using hl assms(3) by simp
  then have u_own: "chain (buf ?u) (head ?u ! k') (us @ vs)"
    by (rule unlink_chain_own [OF ch hb [symmetric]])
  have u_other: "chain (buf ?u) (head ?u ! j) (members s j)" if "j < M" "j \<noteq> k'" for j
  proof -
    have "chain (buf ?u) (head s ! j) (members s j)"
    proof (rule unlink_chain_other [OF linked_chain [OF assms(1) that(1)]])
      show "b \<notin> set (members s j)" using disj [OF that] assms(4) by blast
      show "\<forall>x. ?q = Some x \<longrightarrow> x \<notin> set (members s j)"
        using disj [OF that] by (auto simp: xs)
    qed
    then show ?thesis using that(2) by (simp add: unlink_head_other hb)
  qed
  \<comment> \<open>claim does not touch a link\<close>
  have c_chain: "chain (buf ?c) (head ?c ! j) xs" if "chain (buf ?u) (head ?u ! j) xs" for j xs
    using that by (simp add: bucket_chain [symmetric])
  have c_len: "length (head ?c) = M" "b < length (buf ?c)"
    using hl b by (simp_all add: claim_fields unlink_fields)
  \<comment> \<open>put\<close>
  have own: "chain (buf (put M bn b ?c)) (head (put M bn b ?c) ! ?k) (b # members s ?k)"
  proof (rule put_chain_own)
    show "?k < length (head ?c)" using c_len k by simp
    show "b < length (buf ?c)" by (rule c_len)
    show "chain (buf ?c) (head ?c ! ?k) (members s ?k)"
      by (rule c_chain [OF u_other [OF k]]) (use assms(5) in simp)
    show "b \<notin> set (members s ?k)" using disj [OF k] assms(4,5) by blast
  qed
  have src: "chain (buf (put M bn b ?c)) (head (put M bn b ?c) ! k') (us @ vs)"
    by (rule put_chain_other [OF assms(5) c_chain [OF u_own]]) (use bus bvs in simp)
  have other: "chain (buf (put M bn b ?c)) (head (put M bn b ?c) ! j) (members s j)"
    if "j < M" "j \<noteq> ?k" "j \<noteq> k'" for j
  proof (rule put_chain_other [OF that(2) c_chain [OF u_other [OF that(1,3)]]])
    show "b \<notin> set (members s j)" using disj [OF that(1,3)] assms(4) by blast
  qed
  show 1: "members (moved M d bn b s) ?k = b # members s ?k"
    unfolding mv by (rule members_chain [OF own])
  show 2: "members (moved M d bn b s) k' = remove1 b (members s k')"
    unfolding mv using members_chain [OF src] bus by (simp add: xs remove1_append)
  show 3: "members (moved M d bn b s) j = members s j" if "j < M" "j \<noteq> ?k" "j \<noteq> k'" for j
    unfolding mv by (rule members_chain [OF other [OF that]])
  show "linked M (moved M d bn b s)"
    unfolding linked_def
  proof (intro conjI allI impI)
    show "0 < M" by (rule M)
    show "length (head (moved M d bn b s)) = M" using hl by (simp add: moved_fields [OF b])
    fix j assume j: "j < M"
    consider "j = ?k" | "j = k'" | "j \<noteq> ?k" "j \<noteq> k'" by blast
    then have "\<exists>xs. chain (buf (put M bn b ?c)) (head (put M bn b ?c) ! j) xs"
      using own src other [OF j] by cases blast+
    then show "bucket (moved M d bn b s) j \<noteq> None"
      unfolding mv by (auto simp: bucket_chain [symmetric])
  qed
qed

subsection \<open>binit\<close>

lemma hash_zero: "hash M 0 = 0"
  by (simp add: hash_def)

lemma binit_heads:
  "fold (\<lambda>i s. s\<lparr>head := (head s)[i := None]\<rparr>) xs (zeroed M N) = zeroed M N"
proof (induction xs)
  case (Cons i xs)
  have "(replicate M (None :: nat option))[i := None] = replicate M None"
    by (simp add: list_eq_iff_nth_eq nth_upd)
  then have "(zeroed M N)\<lparr>head := (head (zeroed M N))[i := None]\<rparr> = zeroed M N"
    by (simp add: zeroed_def)
  with Cons show ?case by simp
qed simp

lemma binit_loop:
  assumes "0 < M" "n \<le> N"
  shows "length (buf (fold (binit_buf M) [0..<n] (zeroed M N))) = N \<and>
         length (head (fold (binit_buf M) [0..<n] (zeroed M N))) = M \<and>
         io (fold (binit_buf M) [0..<n] (zeroed M N)) = [] \<and>
         chain (buf (fold (binit_buf M) [0..<n] (zeroed M N)))
           (head (fold (binit_buf M) [0..<n] (zeroed M N)) ! 0) (rev [0..<n]) \<and>
         (\<forall>k. 0 < k \<and> k < M \<longrightarrow> head (fold (binit_buf M) [0..<n] (zeroed M N)) ! k = None) \<and>
         (\<forall>x<N. (buf (fold (binit_buf M) [0..<n] (zeroed M N)) ! x)\<lparr>out := None\<rparr> = zero_buf)"
  using assms(2)
proof (induction n)
  case 0
  show ?case using assms(1) by (simp add: zeroed_def zero_buf_def)
next
  case (Suc n)
  define s where "s = fold (binit_buf M) [0..<n] (zeroed M N)"
  define t where "t = s\<lparr>buf := (buf s)[n := (buf s ! n)\<lparr>lock := None, out := None\<rparr>]\<rparr>"
  from Suc have IH: "length (buf s) = N" "length (head s) = M" "io s = []"
    "chain (buf s) (head s ! 0) (rev [0..<n])"
    "\<forall>k. 0 < k \<and> k < M \<longrightarrow> head s ! k = None"
    "\<forall>x<N. (buf s ! x)\<lparr>out := None\<rparr> = zero_buf"
    and n: "n < N"
    by (simp_all add: s_def)
  have step: "fold (binit_buf M) [0..<Suc n] (zeroed M N) = put M 0 n t"
    by (simp add: s_def t_def binit_buf_def)
  have t: "length (buf t) = N" "head t = head s" "io t = []"
    using IH by (simp_all add: t_def)
  have tch: "chain (buf t) (head t ! 0) (rev [0..<n])"
    unfolding t_def using IH(4) by (simp add: chain_update_notin)
  have "chain (buf (put M 0 n t)) (head (put M 0 n t) ! hash M 0) (n # rev [0..<n])"
    by (rule put_chain_own) (use t tch IH(2) n assms(1) in \<open>simp_all add: hash_zero\<close>)
  then have 1: "chain (buf (put M 0 n t)) (head (put M 0 n t) ! 0) (rev [0..<Suc n])"
    by (simp add: hash_zero)
  have 2: "\<forall>k. 0 < k \<and> k < M \<longrightarrow> head (put M 0 n t) ! k = None"
    using IH(5) t by (simp add: put_fields hash_zero)
  have 3: "(buf (put M 0 n t) ! x)\<lparr>out := None\<rparr> = zero_buf" if "x < N" for x
  proof -
    have "(buf (put M 0 n t) ! x)\<lparr>out := None\<rparr> = (buf s ! x)\<lparr>out := None\<rparr>\<lparr>lock := (if x = n then None else lock (buf s ! x))\<rparr>"
      using that IH(1) by (simp add: put_fields t_def nth_upd)
    also have "\<dots> = zero_buf"
    proof -
      from IH(6) that have z: "(buf s ! x)\<lparr>out := None\<rparr> = zero_buf" by simp
      then have "lock ((buf s ! x)\<lparr>out := None\<rparr>) = lock zero_buf" by simp
      then have "lock (buf s ! x) = None" by (simp add: zero_buf_def)
      then show ?thesis by (simp add: z) (simp add: zero_buf_def)
    qed
    finally show ?thesis .
  qed
  have 4: "length (buf (put M 0 n t)) = N" "length (head (put M 0 n t)) = M"
    "io (put M 0 n t) = []"
    using t IH(2) by (simp_all add: put_fields)
  from 1 2 3 4 show ?case
    unfolding step by blast
qed

lemma boot_fold: "boot M N = fold (binit_buf M) [0..<N] (zeroed M N)"
  by (simp add: boot_def binit_def binit_heads)

lemma boot_state:
  assumes "0 < M"
  shows "length (buf (boot M N)) = N" "length (head (boot M N)) = M" "io (boot M N) = []"
    "chain (buf (boot M N)) (head (boot M N) ! 0) (rev [0..<N])"
    "0 < k \<Longrightarrow> k < M \<Longrightarrow> head (boot M N) ! k = None"
    "x < N \<Longrightarrow> (buf (boot M N) ! x)\<lparr>out := None\<rparr> = zero_buf"
  using binit_loop [OF assms order_refl, of N] by (simp_all add: boot_fold)

lemma boot_buf:
  assumes "0 < M" "x < N"
  shows "valid (buf (boot M N) ! x) = 0" "dev (buf (boot M N) ! x) = 0"
    "blockno (buf (boot M N) ! x) = 0" "lock (buf (boot M N) ! x) = None"
    "refcnt (buf (boot M N) ! x) = 0"
proof -
  from boot_state(6) [OF assms] have "(buf (boot M N) ! x)\<lparr>out := None\<rparr> = zero_buf" .
  then have "valid ((buf (boot M N) ! x)\<lparr>out := None\<rparr>) = valid zero_buf"
    "dev ((buf (boot M N) ! x)\<lparr>out := None\<rparr>) = dev zero_buf"
    "blockno ((buf (boot M N) ! x)\<lparr>out := None\<rparr>) = blockno zero_buf"
    "lock ((buf (boot M N) ! x)\<lparr>out := None\<rparr>) = lock zero_buf"
    "refcnt ((buf (boot M N) ! x)\<lparr>out := None\<rparr>) = refcnt zero_buf"
    by simp_all
  then show "valid (buf (boot M N) ! x) = 0" "dev (buf (boot M N) ! x) = 0"
    "blockno (buf (boot M N) ! x) = 0" "lock (buf (boot M N) ! x) = None"
    "refcnt (buf (boot M N) ! x) = 0"
    by (simp_all add: zero_buf_def)
qed

lemma boot_members:
  assumes "0 < M"
  shows "members (boot M N) 0 = rev [0..<N]" "0 < k \<Longrightarrow> k < M \<Longrightarrow> members (boot M N) k = []"
proof -
  show "members (boot M N) 0 = rev [0..<N]"
    by (rule members_chain [OF boot_state(4) [OF assms]])
  show "members (boot M N) k = []" if "0 < k" "k < M"
    by (rule members_chain) (simp add: boot_state(5) [OF assms that])
qed

lemma boot_linked: "0 < M \<Longrightarrow> linked M (boot M N)"
  unfolding linked_def
proof (intro conjI allI impI)
  fix k assume M: "0 < M" and k: "k < M"
  have "\<exists>xs. chain (buf (boot M N)) (head (boot M N) ! k) xs"
  proof (cases "k = 0")
    case True
    with boot_state(4) [OF M, of N] show ?thesis by blast
  next
    case False
    with boot_state(5) [OF M _ k, of N] have "chain (buf (boot M N)) (head (boot M N) ! k) []"
      by simp
    then show ?thesis by blast
  qed
  then show "bucket (boot M N) k \<noteq> None"
    by (auto simp: bucket_chain [symmetric])
qed (simp_all add: boot_state)

lemma boot_placed: "0 < M \<Longrightarrow> placed M (boot M N)"
proof -
  assume M: "0 < M"
  have "x \<in> set (members (boot M N) k) \<longleftrightarrow> hash M (blockno (buf (boot M N) ! x)) = k"
    if "x < N" "k < M" for x k
    using that boot_members(1) [OF M, where N = N] boot_members(2) [OF M, where N = N and k = k]
      boot_buf(3) [OF M that(1)]
    by (cases "k = 0") (auto simp: hash_zero)
  then show ?thesis
    by (simp add: placed_iff [OF boot_linked [OF M]] boot_state(1) [OF M])
qed

lemma boot_live_first: "0 < M \<Longrightarrow> live_first M (boot M N)"
  by (simp add: live_first_def boot_state boot_buf)

subsection \<open>The invariant is kept\<close>

lemma first_match_cong:
  "(\<forall>i \<in> set xs. dev (buf s' ! i) = dev (buf s ! i) \<and> blockno (buf s' ! i) = blockno (buf s ! i))
   \<Longrightarrow> first_match d bn s' xs = first_match d bn s xs"
  unfolding first_match_def by (rule find_cong) auto

lemma first_match_Cons:
  "first_match d bn s (b # xs) =
     (if dev (buf s ! b) = d \<and> blockno (buf s ! b) = bn then Some b else first_match d bn s xs)"
  by (simp add: first_match_def)

lemma first_match_remove1:
  "first_match d bn s xs = Some x \<Longrightarrow> x \<noteq> b \<Longrightarrow> first_match d bn s (remove1 b xs) = Some x"
  unfolding first_match_def by (induction xs) (auto split: if_splits)

lemma first_match_weaken:
  assumes "first_match d0 b0 s xs = Some x" "x \<noteq> b"
    and "\<forall>i \<in> set xs. i \<noteq> b \<longrightarrow>
           dev (buf s' ! i) = dev (buf s ! i) \<and> blockno (buf s' ! i) = blockno (buf s ! i)"
    and "\<not> (dev (buf s' ! b) = d0 \<and> blockno (buf s' ! b) = b0)"
  shows "first_match d0 b0 s' xs = Some x"
  using assms unfolding first_match_def
  by (induction xs) (auto split: if_splits)

lemma first_match_only:
  assumes "b \<in> set xs" "dev (buf s ! b) = d" "blockno (buf s ! b) = bn"
    and "\<forall>i \<in> set xs. i \<noteq> b \<longrightarrow> \<not> (dev (buf s ! i) = d \<and> blockno (buf s ! i) = bn)"
  shows "first_match d bn s xs = Some b"
  using assms unfolding first_match_def
  by (induction xs) auto

lemma cache_inv_same_lists:
  assumes "cache_inv M N s"
    and "length (buf s') = length (buf s)" "length (head s') = length (head s)"
    and "\<And>k. bucket s' k = bucket s k"
    and "\<And>x. dev (buf s' ! x) = dev (buf s ! x)"
    and "\<And>x. blockno (buf s' ! x) = blockno (buf s ! x)"
    and "\<And>x. x < N \<Longrightarrow> refcnt (buf s' ! x) \<noteq> 0 \<Longrightarrow> refcnt (buf s ! x) \<noteq> 0 \<or>
           first_match (dev (buf s ! x)) (blockno (buf s ! x)) s
             (members s (hash M (blockno (buf s ! x)))) = Some x"
  shows "cache_inv M N s'"
proof -
  have m: "members s' k = members s k" for k by (rule members_cong) (rule assms(4))
  have fm: "first_match d bn s' xs = first_match d bn s xs" for d bn xs
    by (rule first_match_cong) (simp add: assms(5,6))
  from assms(1) have "length (buf s') = N" "linked M s'" "placed M s'"
    by (simp_all add: cache_inv_def linked_def placed_def assms(2,3,4,6) m)
  moreover have "live_first M s'"
    unfolding live_first_def
  proof (intro allI impI)
    fix b assume b: "b < length (buf s')" "refcnt (buf s' ! b) \<noteq> 0"
    with assms(1,2) have bN: "b < N" by (simp add: cache_inv_def)
    from assms(7) [OF bN b(2)] assms(1) bN
    have "first_match (dev (buf s ! b)) (blockno (buf s ! b)) s
             (members s (hash M (blockno (buf s ! b)))) = Some b"
      by (auto simp: cache_inv_def live_first_def)
    then show "first_match (dev (buf s' ! b)) (blockno (buf s' ! b)) s'
             (members s' (hash M (blockno (buf s' ! b)))) = Some b"
      by (simp add: m fm assms(5,6))
  qed
  ultimately show ?thesis by (simp add: cache_inv_def)
qed

lemma cache_inv_acquiresleep:
  assumes "cache_inv M N s"
    and "acquiresleep pid b s = Held s' b' \<or> acquiresleep pid b s = Blocked s' b'"
  shows "cache_inv M N s'"
  by (rule cache_inv_same_lists [OF assms(1)])
    (simp_all add: acquiresleep_fields [OF assms(2)] bucket_acquiresleep [OF assms(2)])

lemma cache_inv_bread_fill: "cache_inv M N s \<Longrightarrow> cache_inv M N (bread_fill b s)"
  by (erule cache_inv_same_lists) (simp_all add: bread_fill_fields)

lemma cache_inv_bwrite: "cache_inv M N s \<Longrightarrow> bwrite pid b s = Inr s' \<Longrightarrow> cache_inv M N s'"
  by (erule cache_inv_same_lists) (simp_all add: bwrite_fields bucket_def)

lemma cache_inv_decrement:
  assumes "cache_inv M N s" "refcnt (buf s ! b) \<noteq> 0"
    and "length (buf s') = length (buf s)" "length (head s') = length (head s)"
    and "\<And>k. bucket s' k = bucket s k"
    and "\<And>x. dev (buf s' ! x) = dev (buf s ! x)"
    and "\<And>x. blockno (buf s' ! x) = blockno (buf s ! x)"
    and "\<And>x. x \<noteq> b \<Longrightarrow> refcnt (buf s' ! x) = refcnt (buf s ! x)"
  shows "cache_inv M N s'"
proof (rule cache_inv_same_lists [OF assms(1,3-7)])
  fix x assume "x < N" "refcnt (buf s' ! x) \<noteq> 0"
  with assms(2,8) have "refcnt (buf s ! x) \<noteq> 0" by (cases "x = b") auto
  then show "refcnt (buf s ! x) \<noteq> 0 \<or>
           first_match (dev (buf s ! x)) (blockno (buf s ! x)) s
             (members s (hash M (blockno (buf s ! x)))) = Some x" ..
qed

lemma cache_inv_bpin:
  "cache_inv M N s \<Longrightarrow> refcnt (buf s ! b) \<noteq> 0 \<Longrightarrow> cache_inv M N (bpin b s)"
  by (rule cache_inv_decrement [where b = b and s = s]) (simp_all add: bpin_fields)

lemma cache_inv_bunpin:
  "cache_inv M N s \<Longrightarrow> refcnt (buf s ! b) \<noteq> 0 \<Longrightarrow> cache_inv M N (bunpin b s)"
  by (rule cache_inv_decrement [where b = b and s = s]) (simp_all add: bunpin_fields)

lemma cache_inv_brelse:
  assumes "cache_inv M N s" "refcnt (buf s ! b) \<noteq> 0" "brelse pid b s = Inr s'"
  shows "cache_inv M N s'"
proof (rule cache_inv_decrement [OF assms(1,2)])
  from assms(3) have s': "s' = bunpin b (releasesleep b s)"
    by (auto simp: brelse_def bunpin_def Let_def split: if_splits)
  show "bucket s' k = bucket s k" for k unfolding s' by simp
qed (simp_all add: brelse_fields [OF assms(3)])

lemma cache_inv_hit:
  assumes "cache_inv M N s" "first_match d bn s (members s (hash M bn)) = Some b"
  shows "cache_inv M N (bpin b s)"
proof (rule cache_inv_same_lists [OF assms(1)])
  fix x assume x: "x < N" "refcnt (buf (bpin b s) ! x) \<noteq> 0"
  show "refcnt (buf s ! x) \<noteq> 0 \<or>
           first_match (dev (buf s ! x)) (blockno (buf s ! x)) s
             (members s (hash M (blockno (buf s ! x)))) = Some x"
  proof (cases "x = b")
    case True
    with first_match_Some [OF assms(2)] assms(2) show ?thesis by simp
  next
    case False
    with x show ?thesis by (simp add: bpin_fields)
  qed
qed (simp_all add: bpin_fields)

lemma cache_inv_reuse:
  assumes "cache_inv M N s" "first_match d bn s (members s (hash M bn)) = None"
    and "first_free s (members s (hash M bn)) = Some b"
  shows "cache_inv M N (claim d bn b s)"
proof -
  let ?k = "hash M bn" and ?s' = "claim d bn b s"
  from assms(1) have N: "length (buf s) = N" and l: "linked M s" and p: "placed M s"
    and lf: "live_first M s"
    by (simp_all add: cache_inv_def)
  from l have M: "0 < M" by (simp add: linked_def)
  have k: "?k < M" by (rule hash_less [OF M])
  from first_free_Some [OF assms(3)] have bk: "b \<in> set (members s ?k)" by simp
  have b: "b < length (buf s)" by (rule members_in_pool [OF l k bk])
  have hb: "hash M (blockno (buf s ! b)) = ?k" by (rule placed_member [OF l p k bk])
  have blk: "hash M (blockno (buf ?s' ! x)) = hash M (blockno (buf s ! x))" for x
    using b hb by (cases "x = b") (simp_all add: claim_fields)
  have "linked M ?s'" using l by (simp add: linked_def claim_fields)
  moreover have "placed M ?s'" using p by (simp add: placed_def claim_fields blk)
  moreover have "live_first M ?s'"
    unfolding live_first_def
  proof (intro allI impI)
    fix x assume x: "x < length (buf ?s')" "refcnt (buf ?s' ! x) \<noteq> 0"
    show "first_match (dev (buf ?s' ! x)) (blockno (buf ?s' ! x)) ?s'
            (members ?s' (hash M (blockno (buf ?s' ! x)))) = Some x"
    proof (cases "x = b")
      case True
      have "first_match d bn ?s' (members s ?k) = Some b"
      proof (rule first_match_only [OF bk])
        show "dev (buf ?s' ! b) = d" "blockno (buf ?s' ! b) = bn"
          using b by (simp_all add: claim_fields)
        show "\<forall>i\<in>set (members s ?k). i \<noteq> b \<longrightarrow>
            \<not> (dev (buf ?s' ! i) = d \<and> blockno (buf ?s' ! i) = bn)"
          using assms(2) by (simp add: first_match_None claim_fields)
      qed
      with True b show ?thesis by (simp add: claim_fields)
    next
      case False
      with x have xs: "x < length (buf s)" "refcnt (buf s ! x) \<noteq> 0"
        by (simp_all add: claim_fields)
      let ?dx = "dev (buf s ! x)" and ?bx = "blockno (buf s ! x)"
      from lf xs have fx: "first_match ?dx ?bx s (members s (hash M ?bx)) = Some x"
        by (simp add: live_first_def)
      have "first_match ?dx ?bx ?s' (members s (hash M ?bx)) = Some x"
      proof (rule first_match_weaken [OF fx False])
        show "\<forall>i\<in>set (members s (hash M ?bx)). i \<noteq> b \<longrightarrow>
            dev (buf ?s' ! i) = dev (buf s ! i) \<and> blockno (buf ?s' ! i) = blockno (buf s ! i)"
          by (simp add: claim_fields)
        show "\<not> (dev (buf ?s' ! b) = ?dx \<and> blockno (buf ?s' ! b) = ?bx)"
        proof
          assume "dev (buf ?s' ! b) = ?dx \<and> blockno (buf ?s' ! b) = ?bx"
          with b have e: "?dx = d" "?bx = bn" by (simp_all add: claim_fields)
          from first_match_Some [OF fx] have "x \<in> set (members s ?k)" by (simp add: e)
          with assms(2) e show False by (simp add: first_match_None)
        qed
      qed
      with False show ?thesis by (simp add: claim_fields)
    qed
  qed
  ultimately show ?thesis using N by (simp add: cache_inv_def claim_fields)
qed

lemma cache_inv_moved:
  assumes "cache_inv M N s" "first_match d bn s (members s (hash M bn)) = None"
    and "k' < M" "k' \<noteq> hash M bn" "first_free s (members s k') = Some b"
  shows "cache_inv M N (moved M d bn b s)"
proof -
  let ?k = "hash M bn" and ?s' = "moved M d bn b s"
  from assms(1) have N: "length (buf s) = N" and l: "linked M s" and p: "placed M s"
    and lf: "live_first M s"
    by (simp_all add: cache_inv_def)
  from l have M: "0 < M" by (simp add: linked_def)
  have k: "?k < M" by (rule hash_less [OF M])
  from first_free_Some [OF assms(5)] have bk': "b \<in> set (members s k')" by simp
  have b: "b < length (buf s)" by (rule members_in_pool [OF l assms(3) bk'])
  have hb: "hash M (blockno (buf s ! b)) = k'" by (rule placed_member [OF l p assms(3) bk'])
  note mm = moved_members [OF l p assms(3) bk' assms(4), where d = d]
  note mf = moved_fields [OF b, where M = M and d = d and bn = bn]
  have old: "dev (buf ?s' ! x) = dev (buf s ! x)" "blockno (buf ?s' ! x) = blockno (buf s ! x)"
    "refcnt (buf ?s' ! x) = refcnt (buf s ! x)" if "x \<noteq> b" for x
  proof -
    from mf(4) [OF that] have e: "(buf ?s' ! x)\<lparr>out := None\<rparr> = (buf s ! x)\<lparr>out := None\<rparr>" .
    from arg_cong [OF e, of dev] show "dev (buf ?s' ! x) = dev (buf s ! x)" by simp
    from arg_cong [OF e, of blockno] show "blockno (buf ?s' ! x) = blockno (buf s ! x)" by simp
    from arg_cong [OF e, of refcnt] show "refcnt (buf ?s' ! x) = refcnt (buf s ! x)" by simp
  qed
  have new: "dev (buf ?s' ! b) = d" "blockno (buf ?s' ! b) = bn" "refcnt (buf ?s' ! b) = 1"
  proof -
    note e = mf(5)
    from arg_cong [OF e, of dev] show "dev (buf ?s' ! b) = d" by simp
    from arg_cong [OF e, of blockno] show "blockno (buf ?s' ! b) = bn" by simp
    from arg_cong [OF e, of refcnt] show "refcnt (buf ?s' ! b) = 1" by simp
  qed
  have bnot: "b \<notin> set (members s j)" if "j < M" "j \<noteq> k'" for j
    using placed_member [OF l p that(1)] hb that(2) by blast
  have dist: "distinct (members s k')" by (rule members_distinct [OF l assms(3)])
  have mem: "set (members ?s' j) =
      (if j = ?k then insert b (set (members s j))
       else if j = k' then set (members s j) - {b} else set (members s j))" if "j < M" for j
    using mm(1,2) mm(3) [OF that] dist by (auto simp: set_remove1_eq)
  have "placed M ?s'"
    unfolding placed_iff [OF mm(4)]
  proof (intro allI impI)
    fix x j assume x: "x < length (buf ?s')" and j: "j < M"
    from p l have pi: "y \<in> set (members s i) \<longleftrightarrow> hash M (blockno (buf s ! y)) = i"
      if "y < length (buf s)" "i < M" for y i
      using that by (simp add: placed_iff)
    from x have xs: "x < length (buf s)" by (simp add: mf)
    show "x \<in> set (members ?s' j) \<longleftrightarrow> hash M (blockno (buf ?s' ! x)) = j"
    proof (cases "x = b")
      case True
      with pi [OF b j] hb assms(4) show ?thesis
        by (auto simp: mem [OF j] new)
    next
      case False
      with pi [OF xs j] show ?thesis
        by (auto simp: mem [OF j] old)
    qed
  qed
  moreover have "live_first M ?s'"
    unfolding live_first_def
  proof (intro allI impI)
    fix x assume x: "x < length (buf ?s')" "refcnt (buf ?s' ! x) \<noteq> 0"
    have same: "first_match d0 b0 ?s' ys = first_match d0 b0 s ys" if "b \<notin> set ys" for d0 b0 ys
    proof (rule first_match_cong, intro ballI)
      fix i assume "i \<in> set ys"
      with that have "i \<noteq> b" by auto
      then show "dev (buf ?s' ! i) = dev (buf s ! i) \<and> blockno (buf ?s' ! i) = blockno (buf s ! i)"
        by (simp add: old)
    qed
    show "first_match (dev (buf ?s' ! x)) (blockno (buf ?s' ! x)) ?s'
            (members ?s' (hash M (blockno (buf ?s' ! x)))) = Some x"
    proof (cases "x = b")
      case True
      then show ?thesis by (simp add: new mm(1) first_match_Cons)
    next
      case False
      let ?dx = "dev (buf s ! x)" and ?bx = "blockno (buf s ! x)"
      from x False have xs: "x < length (buf s)" "refcnt (buf s ! x) \<noteq> 0"
        by (simp_all add: mf old)
      from lf xs have fx: "first_match ?dx ?bx s (members s (hash M ?bx)) = Some x"
        by (simp add: live_first_def)
      have hx: "hash M ?bx < M" by (rule hash_less [OF M])
      consider "hash M ?bx = ?k" | "hash M ?bx = k'" | "hash M ?bx \<noteq> ?k" "hash M ?bx \<noteq> k'"
        by blast
      then have "first_match ?dx ?bx ?s' (members ?s' (hash M ?bx)) = Some x"
      proof cases
        case 1
        from first_match_Some [OF fx] have "x \<in> set (members s ?k)" by (simp add: 1)
        with assms(2) have "\<not> (?dx = d \<and> ?bx = bn)" by (simp add: first_match_None)
        then have "first_match ?dx ?bx ?s' (b # members s ?k) = first_match ?dx ?bx ?s' (members s ?k)"
          by (auto simp: first_match_Cons new)
        also have "\<dots> = first_match ?dx ?bx s (members s ?k)"
          by (rule same) (rule bnot [OF k assms(4) [symmetric]])
        finally show ?thesis using fx by (simp add: 1 mm(1))
      next
        case 2
        have "first_match ?dx ?bx ?s' (remove1 b (members s k')) =
            first_match ?dx ?bx s (remove1 b (members s k'))"
          by (rule same) (use dist in simp)
        also have "\<dots> = Some x"
          by (rule first_match_remove1 [OF _ False]) (use fx 2 in simp)
        finally show ?thesis by (simp add: 2 mm(2))
      next
        case 3
        have "first_match ?dx ?bx ?s' (members s (hash M ?bx)) =
            first_match ?dx ?bx s (members s (hash M ?bx))"
          by (rule same) (rule bnot [OF hx 3(2)])
        with fx show ?thesis by (simp add: mm(3) [OF hx 3])
      qed
      with False show ?thesis by (simp add: old)
    qed
  qed
  ultimately show ?thesis using N mm(4) by (simp add: cache_inv_def mf)
qed

subsection \<open>The outcomes of bget\<close>

lemma bget_outcome:
  assumes "cache_inv M N s"
  obtains
    (hit) b where "first_match d bn s (members s (hash M bn)) = Some b"
      "bget M pid d bn s = Some (acquiresleep pid b (bpin b s))"
  | (reuse) b where "first_match d bn s (members s (hash M bn)) = None"
      "first_free s (members s (hash M bn)) = Some b"
      "bget M pid d bn s = Some (acquiresleep pid b (claim d bn b s))"
  | (steal) j b where "first_match d bn s (members s (hash M bn)) = None"
      "first_free s (members s (hash M bn)) = None"
      "1 \<le> j" "j < M" "barren M bn s 1 j" "hash M (bn + of_nat j) \<noteq> hash M bn"
      "first_free s (members s (hash M (bn + of_nat j))) = Some b"
      "bget M pid d bn s = Some (acquiresleep pid b (moved M d bn b s))"
  | (collide) j where "first_match d bn s (members s (hash M bn)) = None"
      "first_free s (members s (hash M bn)) = None"
      "1 \<le> j" "j < M" "barren M bn s 1 j" "hash M (bn + of_nat j) = hash M bn"
      "bget M pid d bn s = Some (Panic (''no buffer'' @ [CHR 0x0A]))"
  | (empty) "first_match d bn s (members s (hash M bn)) = None"
      "first_free s (members s (hash M bn)) = None" "barren M bn s 1 M"
      "bget M pid d bn s = Some (Panic ''bget: no buffers'')"
proof -
  from assms have l: "linked M s" and p: "placed M s" by (simp_all add: cache_inv_def)
  show thesis
  proof (cases "first_match d bn s (members s (hash M bn))")
    case (Some b)
    with bget_hit [OF l Some] show thesis by (rule hit [rotated])
  next
    case None
    show thesis
    proof (cases "first_free s (members s (hash M bn))")
      case (Some b)
      from None Some bget_reuse [OF l None Some] show thesis by (rule reuse)
    next
      case ff: None
      note st = bget_steal [OF l None ff, of pid]
      from steal_outcome [OF l p, of bn pid d] show thesis
      proof (elim disjE exE conjE)
        assume "barren M bn s 1 M" "steal M pid d bn 1 s = Some (Panic ''bget: no buffers'')"
        with None ff st show thesis by (intro empty) simp_all
      next
        fix j
        assume "1 \<le> j" "j < M" "barren M bn s 1 j" "hash M (bn + of_nat j) = hash M bn"
          "steal M pid d bn 1 s = Some (Panic (''no buffer'' @ [CHR 0x0A]))"
        with None ff st show thesis by (intro collide [of j]) simp_all
      next
        fix j b
        assume "1 \<le> j" "j < M" "barren M bn s 1 j" "hash M (bn + of_nat j) \<noteq> hash M bn"
          "first_free s (members s (hash M (bn + of_nat j))) = Some b"
          "steal M pid d bn 1 s = Some (acquiresleep pid b (moved M d bn b s))"
        with None ff st show thesis by (intro steal [of j b]) simp_all
      qed
    qed
  qed
qed

lemma first_match_acquiresleep:
  assumes "acquiresleep pid b t = Held s' b' \<or> acquiresleep pid b t = Blocked s' b'"
  shows "first_match d bn s' xs = first_match d bn t xs"
  by (rule first_match_cong) (simp add: acquiresleep_fields [OF assms])

lemma live_first_match:
  assumes "cache_inv M N t" "b < N" "refcnt (buf t ! b) \<noteq> 0"
  shows "first_match (dev (buf t ! b)) (blockno (buf t ! b)) t
           (members t (hash M (blockno (buf t ! b)))) = Some b"
  using assms by (simp add: cache_inv_def live_first_def)

text \<open>
  When \<open>bget\<close> does not panic, the invariant holds afterwards, and the buffer it hands out is
  the first buffer with \<open>(dev, blockno)\<close> in the list of the bucket of \<open>blockno\<close>.
\<close>

lemma bget_preserves:
  assumes "cache_inv M N s"
    and "bget M pid d bn s = Some (Held s' b) \<or> bget M pid d bn s = Some (Blocked s' b)"
  shows "cache_inv M N s'" "b < N"
    "first_match d bn s' (members s' (hash M bn)) = Some b"
    "refcnt (buf s' ! b) \<noteq> 0 \<or> refcnt (buf s ! b) = - 1"
proof -
  from assms(1) have N: "length (buf s) = N" and l: "linked M s" and p: "placed M s"
    by (simp_all add: cache_inv_def)
  from l have M: "0 < M" by (simp add: linked_def)
  have k: "hash M bn < M" by (rule hash_less [OF M])
  have fin: "cache_inv M N s' \<and> b < N \<and> first_match d bn s' (members s' (hash M bn)) = Some b \<and>
      refcnt (buf s' ! b) = refcnt (buf t ! c) \<and> b = c"
    if t: "cache_inv M N t" and c: "c < N"
      and fm: "first_match d bn t (members t (hash M bn)) = Some c"
      and r: "bget M pid d bn s = Some (acquiresleep pid c t)" for t c
  proof -
    from assms(2) r have a: "acquiresleep pid c t = Held s' b \<or> acquiresleep pid c t = Blocked s' b"
      by auto
    from acquiresleep_fields(1) [OF a] have bc: "b = c" .
    from cache_inv_acquiresleep [OF t a] c bc
      first_match_acquiresleep [OF a, of d bn "members s' (hash M bn)"]
      members_acquiresleep [OF a, of "hash M bn"] fm acquiresleep_fields(7) [OF a, of c]
    show ?thesis by simp
  qed
  have "cache_inv M N s' \<and> b < N \<and> first_match d bn s' (members s' (hash M bn)) = Some b \<and>
      (refcnt (buf s' ! b) \<noteq> 0 \<or> refcnt (buf s ! b) = - 1)"
  proof (rule bget_outcome [OF assms(1), of d bn pid])
    fix c
    assume fm: "first_match d bn s (members s (hash M bn)) = Some c"
      and r: "bget M pid d bn s = Some (acquiresleep pid c (bpin c s))"
    from first_match_Some [OF fm] have c: "c < N"
      using members_in_pool [OF l k] N by auto
    have "first_match d bn (bpin c s) (members (bpin c s) (hash M bn)) = Some c"
      using fm first_match_cong [of "members s (hash M bn)" "bpin c s" s d bn]
      by (simp add: bpin_fields)
    from fin [OF cache_inv_hit [OF assms(1) fm] c this r] c N
    have *: "cache_inv M N s' \<and> b < N \<and> first_match d bn s' (members s' (hash M bn)) = Some b \<and>
      refcnt (buf s' ! b) = refcnt (buf s ! c) + 1" and bc: "b = c"
      by (auto simp: bpin_fields)
    have "refcnt (buf s ! c) + 1 \<noteq> 0 \<or> refcnt (buf s ! c) = - 1"
      by (metis add_eq_0_iff2)
    with * bc show ?thesis by simp
  next
    fix c
    assume fm: "first_match d bn s (members s (hash M bn)) = None"
      and ff: "first_free s (members s (hash M bn)) = Some c"
      and r: "bget M pid d bn s = Some (acquiresleep pid c (claim d bn c s))"
    from first_free_Some [OF ff] have c: "c < N"
      using members_in_pool [OF l k] N by auto
    note t = cache_inv_reuse [OF assms(1) fm ff]
    from c N have f: "dev (buf (claim d bn c s) ! c) = d" "blockno (buf (claim d bn c s) ! c) = bn"
      "refcnt (buf (claim d bn c s) ! c) = 1"
      by (simp_all add: claim_fields)
    from live_first_match [OF t c] f
    have "first_match d bn (claim d bn c s) (members (claim d bn c s) (hash M bn)) = Some c"
      by simp
    from fin [OF t c this r] f show ?thesis by auto
  next
    fix j c
    assume fm: "first_match d bn s (members s (hash M bn)) = None"
      and j: "hash M (bn + of_nat j) \<noteq> hash M bn"
      and ff: "first_free s (members s (hash M (bn + of_nat j))) = Some c"
      and r: "bget M pid d bn s = Some (acquiresleep pid c (moved M d bn c s))"
    have k': "hash M (bn + of_nat j) < M" by (rule hash_less [OF M])
    from first_free_Some [OF ff] have c: "c < N"
      using members_in_pool [OF l k'] N by auto
    note t = cache_inv_moved [OF assms(1) fm k' j ff]
    from c N have cs: "c < length (buf s)" by simp
    note e = moved_fields(5) [OF cs, where M = M and d = d and bn = bn]
    from arg_cong [OF e, of dev] arg_cong [OF e, of blockno] arg_cong [OF e, of refcnt]
    have f: "dev (buf (moved M d bn c s) ! c) = d" "blockno (buf (moved M d bn c s) ! c) = bn"
      "refcnt (buf (moved M d bn c s) ! c) = 1"
      by simp_all
    from live_first_match [OF t c] f
    have "first_match d bn (moved M d bn c s) (members (moved M d bn c s) (hash M bn)) = Some c"
      by simp
    from fin [OF t c this r] f show ?thesis by auto
  next
    fix j
    assume "bget M pid d bn s = Some (Panic (''no buffer'' @ [CHR 0x0A]))"
    with assms(2) show ?thesis by simp
  next
    assume "bget M pid d bn s = Some (Panic ''bget: no buffers'')"
    with assms(2) show ?thesis by simp
  qed
  then show "cache_inv M N s'" "b < N"
    "first_match d bn s' (members s' (hash M bn)) = Some b"
    "refcnt (buf s' ! b) \<noteq> 0 \<or> refcnt (buf s ! b) = - 1"
    by simp_all
qed

lemma bread_preserves:
  assumes "cache_inv M N s"
    and "bread M pid d bn s = Some (Held s' b) \<or> bread M pid d bn s = Some (Blocked s' b)"
  shows "cache_inv M N s'"
proof -
  from assms(2) consider t where "bget M pid d bn s = Some (Held t b)" "s' = bread_fill b t"
    | "bget M pid d bn s = Some (Blocked s' b)"
    by (auto simp: bread_def split: option.splits outcome.splits)
  then show ?thesis
  proof cases
    case 1
    from bget_preserves(1) [OF assms(1), of pid d bn t b] 1 show ?thesis
      by (simp add: cache_inv_bread_fill)
  next
    case 2
    with bget_preserves(1) [OF assms(1), of pid d bn s' b] show ?thesis by simp
  qed
qed

lemma boot_inv: "0 < M \<Longrightarrow> cache_inv M N (boot M N)"
  by (simp add: cache_inv_def boot_state boot_linked boot_placed boot_live_first)

lemma reachable_inv:
  assumes "reachable M N s" "0 < M"
  shows "cache_inv M N s"
  using assms(1)
proof (induction rule: reachable.induct)
  case boot
  show ?case by (rule boot_inv [OF assms(2)])
next
  case (bget_held s pid d bn s' b)
  then show ?case using bget_preserves(1) by blast
next
  case (bget_blocked s pid d bn s' b)
  then show ?case using bget_preserves(1) by blast
next
  case (bread_held s pid d bn s' b)
  then show ?case using bread_preserves by blast
next
  case (bread_blocked s pid d bn s' b)
  then show ?case using bread_preserves by blast
next
  case (wake s b pid s')
  then show ?case using cache_inv_acquiresleep by blast
next
  case (fill s b pid)
  then show ?case by (simp add: cache_inv_bread_fill)
next
  case (bwrite s b pid s')
  then show ?case using cache_inv_bwrite by blast
next
  case (brelse s b pid s')
  then show ?case using cache_inv_brelse by blast
next
  case (bpin s b)
  then show ?case by (simp add: cache_inv_bpin)
next
  case (bunpin s b)
  then show ?case by (simp add: cache_inv_bunpin)
qed

subsection \<open>Every buffer sits in the bucket of its block number\<close>

text \<open>
  C9: in every reachable state each buffer is in the list of the bucket that the hash of
  its current block number selects, no list holds a buffer of another bucket, and so
  \<open>remove\<close>, which scans the bucket of \<open>hash(b->blockno)\<close>, finds every buffer it is asked
  to unlink.
\<close>

theorem slot_in_hash_bucket:
  assumes "reachable M N s" "0 < M"
  shows "(\<forall>b<N. b \<in> set (members s (hash M (blockno (buf s ! b))))) \<and>
         (\<forall>k<M. \<forall>b \<in> set (members s k). hash M (blockno (buf s ! b)) = k) \<and>
         (\<forall>b<N. \<exists>s'. remove M b s = Some (Inr s') \<and>
            bucket s' (hash M (blockno (buf s ! b))) =
              Some (remove1 b (members s (hash M (blockno (buf s ! b))))))"
proof -
  from reachable_inv [OF assms] have N: "length (buf s) = N" and l: "linked M s"
    and p: "placed M s"
    by (simp_all add: cache_inv_def)
  from p N have 1: "\<forall>b<N. b \<in> set (members s (hash M (blockno (buf s ! b))))"
    and 2: "\<forall>k<M. \<forall>b \<in> set (members s k). hash M (blockno (buf s ! b)) = k"
    by (simp_all add: placed_def)
  have 3: "\<exists>s'. remove M b s = Some (Inr s') \<and>
            bucket s' (hash M (blockno (buf s ! b))) =
              Some (remove1 b (members s (hash M (blockno (buf s ! b)))))" if "b < N" for b
  proof -
    let ?k = "hash M (blockno (buf s ! b))"
    have k: "?k < M" by (rule hash_less [OF assms(2)])
    with l have "bucket s ?k = Some (members s ?k)" "?k < length (head s)"
      by (auto simp: linked_def members_def)
    from remove_effect [OF this] 1 that show ?thesis by blast
  qed
  from 1 2 3 show ?thesis by blast
qed

theorem slot_in_hash_bucket_witness:
  "reachable 2 4 (the_held (bget 2 7 1 11 (boot 2 4))) \<and> (0::nat) < 2 \<and>
   3 \<in> set (members (the_held (bget 2 7 1 11 (boot 2 4)))
        (hash 2 (blockno (buf (the_held (bget 2 7 1 11 (boot 2 4))) ! 3)))) \<and>
   blockno (buf (the_held (bget 2 7 1 11 (boot 2 4))) ! 3) = 11 \<and>
   members (the_held (bget 2 7 1 11 (boot 2 4))) 1 = [3] \<and>
   2 \<in> set (members (the_held (bget 2 7 1 11 (boot 2 4)))
        (hash 2 (blockno (buf (the_held (bget 2 7 1 11 (boot 2 4))) ! 2)))) \<and>
   members (the_held (bget 2 7 1 11 (boot 2 4))) 0 = [2, 1, 0]"
proof -
  let ?s = "the_held (bget 2 7 1 11 (boot 2 4))"
  have "bget 2 7 1 11 (boot 2 4) = Some (Held ?s 3)"
    by code_simp
  then have r: "reachable 2 4 ?s"
    by (rule reachable.bget_held [OF reachable.boot])
  have M: "(0::nat) < 2" by simp
  note t = slot_in_hash_bucket [OF r M, THEN conjunct1]
  from t have 3: "3 \<in> set (members ?s (hash 2 (blockno (buf ?s ! 3))))" by simp
  from t have 2: "2 \<in> set (members ?s (hash 2 (blockno (buf ?s ! 2))))" by simp
  have b: "blockno (buf ?s ! 3) = 11" by code_simp
  have m1: "members ?s 1 = [3]" by code_simp
  have m0: "members ?s 0 = [2, 1, 0]" by code_simp
  from r M 3 b m1 2 m0 show ?thesis by (intro conjI)
qed

subsection \<open>Every buffer is in exactly one list\<close>

lemma bget_steal_effect:
  assumes "cache_inv M N s" "first_match d bn s (members s (hash M bn)) = None"
    and "first_free s (members s (hash M bn)) = None"
    and "bget M pid d bn s = Some (Held s' b) \<or> bget M pid d bn s = Some (Blocked s' b)"
  shows "hash M (blockno (buf s ! b)) \<noteq> hash M bn"
    and "b \<in> set (members s (hash M (blockno (buf s ! b))))"
    and "refcnt (buf s ! b) = 0"
    and "members s' (hash M (blockno (buf s ! b))) =
           remove1 b (members s (hash M (blockno (buf s ! b))))"
    and "members s' (hash M bn) = b # members s (hash M bn)"
    and "\<forall>j<M. j \<noteq> hash M bn \<and> j \<noteq> hash M (blockno (buf s ! b)) \<longrightarrow> members s' j = members s j"
    and "dev (buf s' ! b) = d \<and> blockno (buf s' ! b) = bn \<and> refcnt (buf s' ! b) = 1 \<and>
         valid (buf s' ! b) = 0"
    and "\<exists>j. 1 \<le> j \<and> j < M \<and> hash M (bn + of_nat j) = hash M (blockno (buf s ! b)) \<and>
           barren M bn s 1 j \<and> first_free s (members s (hash M (bn + of_nat j))) = Some b"
    and "acquiresleep pid b (moved M d bn b s) = Held s' b \<or>
         acquiresleep pid b (moved M d bn b s) = Blocked s' b"
proof -
  from assms(1) have N: "length (buf s) = N" and l: "linked M s" and p: "placed M s"
    by (simp_all add: cache_inv_def)
  from l have M: "0 < M" by (simp add: linked_def)
  obtain j c where j: "1 \<le> j" "j < M" "barren M bn s 1 j"
    and neq: "hash M (bn + of_nat j) \<noteq> hash M bn"
    and ff: "first_free s (members s (hash M (bn + of_nat j))) = Some c"
    and r: "bget M pid d bn s = Some (acquiresleep pid c (moved M d bn c s))"
  proof (rule bget_outcome [OF assms(1), of d bn pid])
    fix c assume "first_match d bn s (members s (hash M bn)) = Some c"
    with assms(2) show thesis by simp
  next
    fix c assume "first_free s (members s (hash M bn)) = Some c"
    with assms(3) show thesis by simp
  next
    fix j c
    assume "1 \<le> j" "j < M" "barren M bn s 1 j" "hash M (bn + of_nat j) \<noteq> hash M bn"
      "first_free s (members s (hash M (bn + of_nat j))) = Some c"
      "bget M pid d bn s = Some (acquiresleep pid c (moved M d bn c s))"
    then show thesis by (rule that)
  next
    assume "bget M pid d bn s = Some (Panic (''no buffer'' @ [CHR 0x0A]))"
    with assms(4) show thesis by simp
  next
    assume "bget M pid d bn s = Some (Panic ''bget: no buffers'')"
    with assms(4) show thesis by simp
  qed
  from assms(4) r have a: "acquiresleep pid c (moved M d bn c s) = Held s' b \<or>
      acquiresleep pid c (moved M d bn c s) = Blocked s' b"
    by auto
  from acquiresleep_fields(1) [OF a] have bc: "b = c" .
  let ?k' = "hash M (bn + of_nat j)"
  have k': "?k' < M" by (rule hash_less [OF M])
  from first_free_Some [OF ff] have ck: "c \<in> set (members s ?k')" and free: "refcnt (buf s ! c) = 0"
    by simp_all
  have hc: "hash M (blockno (buf s ! c)) = ?k'" by (rule placed_member [OF l p k' ck])
  have c: "c < length (buf s)" by (rule members_in_pool [OF l k' ck])
  note mm = moved_members [OF l p k' ck neq, where d = d]
  note e = moved_fields(5) [OF c, where M = M and d = d and bn = bn]
  from arg_cong [OF e, of dev] arg_cong [OF e, of blockno] arg_cong [OF e, of refcnt]
    arg_cong [OF e, of valid]
  have f: "dev (buf (moved M d bn c s) ! c) = d" "blockno (buf (moved M d bn c s) ! c) = bn"
    "refcnt (buf (moved M d bn c s) ! c) = 1" "valid (buf (moved M d bn c s) ! c) = 0"
    by simp_all
  note ms = members_acquiresleep [OF a]
  show "hash M (blockno (buf s ! b)) \<noteq> hash M bn" using neq by (simp add: bc hc)
  show "b \<in> set (members s (hash M (blockno (buf s ! b))))" using ck by (simp add: bc hc)
  show "refcnt (buf s ! b) = 0" using free by (simp add: bc)
  show "members s' (hash M (blockno (buf s ! b))) =
           remove1 b (members s (hash M (blockno (buf s ! b))))"
    by (simp add: bc hc ms mm(2))
  show "members s' (hash M bn) = b # members s (hash M bn)"
    by (simp add: bc ms mm(1))
  show "\<forall>j<M. j \<noteq> hash M bn \<and> j \<noteq> hash M (blockno (buf s ! b)) \<longrightarrow> members s' j = members s j"
    by (simp add: bc hc ms mm(3))
  show "dev (buf s' ! b) = d \<and> blockno (buf s' ! b) = bn \<and> refcnt (buf s' ! b) = 1 \<and>
         valid (buf s' ! b) = 0"
    by (simp add: bc acquiresleep_fields [OF a] f)
  show "\<exists>j. 1 \<le> j \<and> j < M \<and> hash M (bn + of_nat j) = hash M (blockno (buf s ! b)) \<and>
           barren M bn s 1 j \<and> first_free s (members s (hash M (bn + of_nat j))) = Some b"
    using j ff by (auto simp: bc hc)
  show "acquiresleep pid b (moved M d bn b s) = Held s' b \<or>
         acquiresleep pid b (moved M d bn b s) = Blocked s' b"
    using a by (simp add: bc)
qed

lemma one_list:
  assumes "cache_inv M N s"
  shows "\<forall>k<M. bucket s k \<noteq> None \<and> distinct (members s k) \<and> set (members s k) \<subseteq> {..<N}"
    and "\<forall>b<N. \<exists>!k. k < M \<and> b \<in> set (members s k)"
proof -
  from assms have N: "length (buf s) = N" and l: "linked M s" and p: "placed M s"
    by (simp_all add: cache_inv_def)
  from l have M: "0 < M" by (simp add: linked_def)
  show "\<forall>k<M. bucket s k \<noteq> None \<and> distinct (members s k) \<and> set (members s k) \<subseteq> {..<N}"
    using l members_distinct [OF l] members_in_pool [OF l] N
    by (auto simp: linked_def)
  show "\<forall>b<N. \<exists>!k. k < M \<and> b \<in> set (members s k)"
  proof (intro allI impI)
    fix b assume "b < N"
    with p N have "b \<in> set (members s (hash M (blockno (buf s ! b))))"
      by (simp add: placed_def)
    moreover have "k = hash M (blockno (buf s ! b))" if "k < M" "b \<in> set (members s k)" for k
      using placed_member [OF l p that] by simp
    ultimately show "\<exists>!k. k < M \<and> b \<in> set (members s k)"
      using hash_less [OF M] by blast
  qed
qed

text \<open>
  C3: in every reachable state each bucket has a well-formed list without repetition, the
  lists hold pool buffers only, and each buffer of the pool is in the list of exactly one
  bucket. The states after any call are reachable again, so every operation keeps this.
  For the third phase of \<open>bget\<close> (no buffer of the own bucket matches, none is free): the
  buffer \<open>b\<close> handed out was free and in the list of another bucket \<open>k'\<close>, the bucket of its
  old block number; afterwards the list of \<open>k'\<close> is the old one without \<open>b\<close>, the list of
  the caller's bucket is the old one with \<open>b\<close> in front, the other lists are unchanged, \<open>b\<close>
  carries the new \<open>(dev, blockno)\<close>, and again each buffer is in exactly one list.
\<close>

theorem slot_in_exactly_one_list:
  assumes "reachable M N s" "0 < M"
  shows "(\<forall>k<M. bucket s k \<noteq> None \<and> distinct (members s k) \<and> set (members s k) \<subseteq> {..<N}) \<and>
         (\<forall>b<N. \<exists>!k. k < M \<and> b \<in> set (members s k)) \<and>
         (\<forall>pid d bn s' b.
            first_match d bn s (members s (hash M bn)) = None \<and>
            first_free s (members s (hash M bn)) = None \<and>
            (bget M pid d bn s = Some (Held s' b) \<or> bget M pid d bn s = Some (Blocked s' b)) \<longrightarrow>
              hash M (blockno (buf s ! b)) \<noteq> hash M bn \<and>
              b \<in> set (members s (hash M (blockno (buf s ! b)))) \<and>
              refcnt (buf s ! b) = 0 \<and>
              members s' (hash M (blockno (buf s ! b))) =
                remove1 b (members s (hash M (blockno (buf s ! b)))) \<and>
              members s' (hash M bn) = b # members s (hash M bn) \<and>
              (\<forall>j<M. j \<noteq> hash M bn \<and> j \<noteq> hash M (blockno (buf s ! b)) \<longrightarrow>
                 members s' j = members s j) \<and>
              dev (buf s' ! b) = d \<and> blockno (buf s' ! b) = bn \<and>
              (\<forall>x<N. \<exists>!k. k < M \<and> x \<in> set (members s' k)))"
proof (intro conjI allI impI)
  note inv = reachable_inv [OF assms]
  show "\<And>k. k < M \<Longrightarrow> bucket s k \<noteq> None" "\<And>k. k < M \<Longrightarrow> distinct (members s k)"
    "\<And>k. k < M \<Longrightarrow> set (members s k) \<subseteq> {..<N}"
    using one_list(1) [OF inv] by simp_all
  show "\<And>b. b < N \<Longrightarrow> \<exists>!k. k < M \<and> b \<in> set (members s k)"
    using one_list(2) [OF inv] by simp
  fix pid d bn s' b
  assume a: "first_match d bn s (members s (hash M bn)) = None \<and>
            first_free s (members s (hash M bn)) = None \<and>
            (bget M pid d bn s = Some (Held s' b) \<or> bget M pid d bn s = Some (Blocked s' b))"
  then have fm: "first_match d bn s (members s (hash M bn)) = None"
    and ff: "first_free s (members s (hash M bn)) = None"
    and r: "bget M pid d bn s = Some (Held s' b) \<or> bget M pid d bn s = Some (Blocked s' b)"
    by simp_all
  note eff = bget_steal_effect [OF inv fm ff r]
  show "hash M (blockno (buf s ! b)) \<noteq> hash M bn" by (rule eff(1))
  show "b \<in> set (members s (hash M (blockno (buf s ! b))))" by (rule eff(2))
  show "refcnt (buf s ! b) = 0" by (rule eff(3))
  show "members s' (hash M (blockno (buf s ! b))) =
          remove1 b (members s (hash M (blockno (buf s ! b))))" by (rule eff(4))
  show "members s' (hash M bn) = b # members s (hash M bn)" by (rule eff(5))
  show "\<And>j. j < M \<Longrightarrow> j \<noteq> hash M bn \<and> j \<noteq> hash M (blockno (buf s ! b)) \<Longrightarrow>
      members s' j = members s j" using eff(6) by simp
  show "dev (buf s' ! b) = d" "blockno (buf s' ! b) = bn" using eff(7) by simp_all
  show "\<And>x. x < N \<Longrightarrow> \<exists>!k. k < M \<and> x \<in> set (members s' k)"
    using one_list(2) [OF bget_preserves(1) [OF inv r]] by simp
qed

theorem slot_in_exactly_one_list_witness:
  "reachable 2 4 (boot 2 4) \<and> (0::nat) < 2 \<and>
   first_match 1 11 (boot 2 4) (members (boot 2 4) (hash 2 11)) = None \<and>
   first_free (boot 2 4) (members (boot 2 4) (hash 2 11)) = None \<and>
   bget 2 7 1 11 (boot 2 4) = Some (Held (the_held (bget 2 7 1 11 (boot 2 4))) 3) \<and>
   (\<exists>!k. k < 2 \<and> 3 \<in> set (members (boot 2 4) k)) \<and>
   members (boot 2 4) 0 = [3, 2, 1, 0] \<and> members (boot 2 4) 1 = [] \<and>
   members (the_held (bget 2 7 1 11 (boot 2 4))) (hash 2 11) = 3 # members (boot 2 4) (hash 2 11) \<and>
   (\<exists>!k. k < 2 \<and> 3 \<in> set (members (the_held (bget 2 7 1 11 (boot 2 4))) k)) \<and>
   members (the_held (bget 2 7 1 11 (boot 2 4))) 0 = [2, 1, 0] \<and>
   members (the_held (bget 2 7 1 11 (boot 2 4))) 1 = [3]"
proof -
  let ?s' = "the_held (bget 2 7 1 11 (boot 2 4))"
  have r: "reachable 2 4 (boot 2 4)" by (rule reachable.boot)
  have M: "(0::nat) < 2" by simp
  have 1: "first_match 1 11 (boot 2 4) (members (boot 2 4) (hash 2 11)) = None" by code_simp
  have 2: "first_free (boot 2 4) (members (boot 2 4) (hash 2 11)) = None" by code_simp
  have 3: "bget 2 7 1 11 (boot 2 4) = Some (Held ?s' 3)" by code_simp
  have l: "(3::nat) < 4" by simp
  note t = slot_in_exactly_one_list [OF r M]
  note a = t [THEN conjunct2, THEN conjunct1, THEN spec, THEN mp, OF l]
  from 1 2 3 have "first_match 1 11 (boot 2 4) (members (boot 2 4) (hash 2 11)) = None \<and>
            first_free (boot 2 4) (members (boot 2 4) (hash 2 11)) = None \<and>
            (bget 2 7 1 11 (boot 2 4) = Some (Held ?s' 3) \<or>
             bget 2 7 1 11 (boot 2 4) = Some (Blocked ?s' 3))"
    by (intro conjI disjI1)
  note b = t [THEN conjunct2, THEN conjunct2, THEN spec, THEN spec, THEN spec, THEN spec,
      THEN spec, THEN mp, OF this]
  note b5 = b [THEN conjunct2, THEN conjunct2, THEN conjunct2, THEN conjunct2, THEN conjunct1]
  note b9 = b [THEN conjunct2, THEN conjunct2, THEN conjunct2, THEN conjunct2, THEN conjunct2,
      THEN conjunct2, THEN conjunct2, THEN conjunct2, THEN spec, THEN mp, OF l]
  have m: "members (boot 2 4) 0 = [3, 2, 1, 0]" "members (boot 2 4) 1 = []"
    "members ?s' 0 = [2, 1, 0]" "members ?s' 1 = [3]"
    by code_simp+
  from r M 1 2 3 a m(1,2) b5 b9 m(3,4) show ?thesis by (intro conjI)
qed

subsection \<open>One buffer per block\<close>

lemma live_unique:
  assumes "cache_inv M N s" "i < N" "j < N"
    and "refcnt (buf s ! i) \<noteq> 0" "refcnt (buf s ! j) \<noteq> 0"
    and "dev (buf s ! i) = dev (buf s ! j)" "blockno (buf s ! i) = blockno (buf s ! j)"
  shows "i = j"
proof -
  from live_first_match [OF assms(1,2,4)]
  have "first_match (dev (buf s ! j)) (blockno (buf s ! j)) s
          (members s (hash M (blockno (buf s ! j)))) = Some i"
    by (simp only: assms(6,7))
  with live_first_match [OF assms(1,3,5)] show "i = j" by simp
qed

lemma bget_hit_effect:
  assumes "cache_inv M N s" "first_match d bn s (members s (hash M bn)) = Some b"
  shows "bget M pid d bn s = Some (acquiresleep pid b (bpin b s))"
    and "\<exists>s'. (acquiresleep pid b (bpin b s) = Held s' b \<or>
               acquiresleep pid b (bpin b s) = Blocked s' b) \<and>
           refcnt (buf s' ! b) = refcnt (buf s ! b) + 1 \<and>
           dev (buf s' ! b) = d \<and> blockno (buf s' ! b) = bn \<and>
           valid (buf s' ! b) = valid (buf s ! b) \<and>
           (\<forall>x. x \<noteq> b \<longrightarrow> buf s' ! x = buf s ! x) \<and>
           head s' = head s \<and> map out (buf s') = map out (buf s) \<and> io s' = io s"
proof -
  from assms(1) have N: "length (buf s) = N" and l: "linked M s"
    by (simp_all add: cache_inv_def)
  from l have k: "hash M bn < M" by (simp add: linked_def hash_less)
  from first_match_Some [OF assms(2)] have bm: "b \<in> set (members s (hash M bn))"
    and ident: "dev (buf s ! b) = d" "blockno (buf s ! b) = bn"
    by simp_all
  have b: "b < length (buf s)" by (rule members_in_pool [OF l k bm])
  show "bget M pid d bn s = Some (acquiresleep pid b (bpin b s))"
    by (rule bget_hit [OF l assms(2)])
  let ?t = "bpin b s"
  define s' where "s' = the_held (Some (acquiresleep pid b ?t))"
  have a: "acquiresleep pid b ?t = Held s' b \<or> acquiresleep pid b ?t = Blocked s' b"
    unfolding s'_def by (simp add: acquiresleep_def)
  note af = acquiresleep_fields(2-8) [OF a]
  have 1: "refcnt (buf s' ! b) = refcnt (buf s ! b) + 1"
    using b by (simp add: af bpin_fields)
  have 2: "dev (buf s' ! b) = d" "blockno (buf s' ! b) = bn"
    using ident by (simp_all add: af bpin_fields)
  have 3: "valid (buf s' ! b) = valid (buf s ! b)"
    by (simp add: af bpin_def nth_upd)
  have 4: "\<forall>x. x \<noteq> b \<longrightarrow> buf s' ! x = buf s ! x"
  proof (intro allI impI)
    fix x assume x: "x \<noteq> b"
    from a have "buf s' ! x = buf ?t ! x"
      using x by (auto simp: acquiresleep_def nth_upd split: if_splits)
    also have "\<dots> = buf s ! x" using x by (simp add: bpin_def nth_upd)
    finally show "buf s' ! x = buf s ! x" .
  qed
  have 5: "head s' = head s" "io s' = io s" by (simp_all add: af bpin_fields)
  have "map out (buf s') = map out (buf ?t)"
    using a by (auto simp: acquiresleep_def map_out_update split: if_splits)
  also have "\<dots> = map out (buf s)"
    unfolding bpin_def by (simp add: map_out_update)
  finally have 6: "map out (buf s') = map out (buf s)" .
  from a 1 2 3 4 5 6
  show "\<exists>s'. (acquiresleep pid b ?t = Held s' b \<or> acquiresleep pid b ?t = Blocked s' b) \<and>
           refcnt (buf s' ! b) = refcnt (buf s ! b) + 1 \<and>
           dev (buf s' ! b) = d \<and> blockno (buf s' ! b) = bn \<and>
           valid (buf s' ! b) = valid (buf s ! b) \<and>
           (\<forall>x. x \<noteq> b \<longrightarrow> buf s' ! x = buf s ! x) \<and>
           head s' = head s \<and> map out (buf s') = map out (buf s) \<and> io s' = io s"
    by (intro exI [of _ s'] conjI)
qed

text \<open>
  C1: in every reachable state no two buffers in use (\<open>refcnt \<noteq> 0\<close>) carry the same
  \<open>(dev, blockno)\<close>. A buffer in use that carries \<open>(dev, blockno)\<close> is the one the first loop
  of \<open>bget(dev, blockno)\<close> finds. Whenever that loop finds a buffer, \<open>bget\<close> takes exactly
  that buffer: the outcome is \<open>acquiresleep\<close> on it after \<open>refcnt++\<close>, so its count is one
  higher, its identity and \<open>valid\<close> flag are as before, no other buffer, no link and no head
  has changed, and no second buffer has been allocated.
\<close>

theorem bget_unique_slot:
  assumes "reachable M N s" "0 < M"
  shows "(\<forall>i<N. \<forall>j<N. refcnt (buf s ! i) \<noteq> 0 \<and> refcnt (buf s ! j) \<noteq> 0 \<and>
            dev (buf s ! i) = dev (buf s ! j) \<and> blockno (buf s ! i) = blockno (buf s ! j) \<longrightarrow>
            i = j) \<and>
         (\<forall>j<N. refcnt (buf s ! j) \<noteq> 0 \<longrightarrow>
            first_match (dev (buf s ! j)) (blockno (buf s ! j)) s
              (members s (hash M (blockno (buf s ! j)))) = Some j) \<and>
         (\<forall>pid d bn b. first_match d bn s (members s (hash M bn)) = Some b \<longrightarrow>
            bget M pid d bn s = Some (acquiresleep pid b (bpin b s)) \<and>
            (\<exists>s'. (acquiresleep pid b (bpin b s) = Held s' b \<or>
                   acquiresleep pid b (bpin b s) = Blocked s' b) \<and>
               refcnt (buf s' ! b) = refcnt (buf s ! b) + 1 \<and>
               dev (buf s' ! b) = d \<and> blockno (buf s' ! b) = bn \<and>
               valid (buf s' ! b) = valid (buf s ! b) \<and>
               (\<forall>x. x \<noteq> b \<longrightarrow> buf s' ! x = buf s ! x) \<and>
               head s' = head s \<and> map out (buf s') = map out (buf s) \<and> io s' = io s))"
proof (intro conjI allI impI)
  note inv = reachable_inv [OF assms]
  show "i = j" if "i < N" "j < N" "refcnt (buf s ! i) \<noteq> 0 \<and> refcnt (buf s ! j) \<noteq> 0 \<and>
      dev (buf s ! i) = dev (buf s ! j) \<and> blockno (buf s ! i) = blockno (buf s ! j)" for i j
    using live_unique [OF inv that(1,2)] that(3) by simp
  show "first_match (dev (buf s ! j)) (blockno (buf s ! j)) s
          (members s (hash M (blockno (buf s ! j)))) = Some j"
    if "j < N" "refcnt (buf s ! j) \<noteq> 0" for j
    by (rule live_first_match [OF inv that])
  fix pid d bn b
  assume fm: "first_match d bn s (members s (hash M bn)) = Some b"
  show "bget M pid d bn s = Some (acquiresleep pid b (bpin b s))"
    by (rule bget_hit_effect(1) [OF inv fm])
  show "\<exists>s'. (acquiresleep pid b (bpin b s) = Held s' b \<or>
               acquiresleep pid b (bpin b s) = Blocked s' b) \<and>
           refcnt (buf s' ! b) = refcnt (buf s ! b) + 1 \<and>
           dev (buf s' ! b) = d \<and> blockno (buf s' ! b) = bn \<and>
           valid (buf s' ! b) = valid (buf s ! b) \<and>
           (\<forall>x. x \<noteq> b \<longrightarrow> buf s' ! x = buf s ! x) \<and>
           head s' = head s \<and> map out (buf s') = map out (buf s) \<and> io s' = io s"
    by (rule bget_hit_effect(2) [OF inv fm])
qed

theorem bget_unique_slot_witness:
  "reachable 2 4 (the_held (bget 2 7 1 11 (boot 2 4))) \<and> (0::nat) < 2 \<and>
   first_match 1 11 (the_held (bget 2 7 1 11 (boot 2 4)))
     (members (the_held (bget 2 7 1 11 (boot 2 4))) (hash 2 11)) = Some 3 \<and>
   bget 2 8 1 11 (the_held (bget 2 7 1 11 (boot 2 4))) =
     Some (acquiresleep 8 3 (bpin 3 (the_held (bget 2 7 1 11 (boot 2 4))))) \<and>
   bget 2 8 1 11 (the_held (bget 2 7 1 11 (boot 2 4))) =
     Some (Blocked (bpin 3 (the_held (bget 2 7 1 11 (boot 2 4)))) 3) \<and>
   refcnt (buf (bpin 3 (the_held (bget 2 7 1 11 (boot 2 4)))) ! 3) = 2"
proof -
  let ?s = "the_held (bget 2 7 1 11 (boot 2 4))"
  have "bget 2 7 1 11 (boot 2 4) = Some (Held ?s 3)" by code_simp
  then have r: "reachable 2 4 ?s" by (rule reachable.bget_held [OF reachable.boot])
  have M: "(0::nat) < 2" by simp
  have 1: "first_match 1 11 ?s (members ?s (hash 2 11)) = Some 3" by code_simp
  note t = bget_unique_slot [OF r M, THEN conjunct2, THEN conjunct2, THEN spec, THEN spec,
      THEN spec, THEN spec, THEN mp, OF 1, THEN conjunct1]
  have 2: "acquiresleep 8 3 (bpin 3 ?s) = Blocked (bpin 3 ?s) 3" by code_simp
  have 3: "refcnt (buf (bpin 3 ?s) ! 3) = 2" by code_simp
  from t [of 8] 2 have 4: "bget 2 8 1 11 ?s = Some (Blocked (bpin 3 ?s) 3)" by simp
  from r M 1 t [of 8] 4 3 show ?thesis by (intro conjI)
qed

subsection \<open>bread\<close>

lemma bread_fill_effect:
  assumes "b < length (buf s)"
  shows "valid (buf s ! b) = 0 \<longrightarrow>
           io (bread_fill b s) = io s @ [(b, False)] \<and> valid (buf (bread_fill b s) ! b) = 1"
    and "valid (buf s ! b) \<noteq> 0 \<longrightarrow> bread_fill b s = s"
    and "valid (buf (bread_fill b s) ! b) \<noteq> 0"
  using assms by (simp_all add: bread_fill_def virtio_disk_rw_def Let_def)

lemma bread_again:
  assumes "cache_inv M N s" "bread M pid d bn s = Some (Held s1 b)" "brelse pid b s1 = Inr s2"
  shows "dev (buf s2 ! b) = d \<and> blockno (buf s2 ! b) = bn \<and> valid (buf s2 ! b) \<noteq> 0 \<and>
         lock (buf s2 ! b) = None \<and>
         first_match d bn s2 (members s2 (hash M bn)) = Some b \<and>
         (\<exists>s3. bread M pid' d bn s2 = Some (Held s3 b) \<and> io s3 = io s2 \<and>
               refcnt (buf s3 ! b) = refcnt (buf s2 ! b) + 1)"
proof -
  from assms(2) obtain t where g: "bget M pid d bn s = Some (Held t b)"
    and s1: "s1 = bread_fill b t"
    by (auto simp: bread_def split: option.splits outcome.splits)
  from g have g': "bget M pid d bn s = Some (Held t b) \<or> bget M pid d bn s = Some (Blocked t b)"
    by simp
  note t = bget_preserves(1-3) [OF assms(1) g']
  from t(1) have tN: "length (buf t) = N" and lt: "linked M t" by (simp_all add: cache_inv_def)
  from t(2) tN have b: "b < length (buf t)" by simp
  from assms(3) have s2: "s2 = bunpin b (releasesleep b s1)"
    by (auto simp: brelse_def bunpin_def Let_def split: if_splits)
  have f: "dev (buf s2 ! x) = dev (buf t ! x)" "blockno (buf s2 ! x) = blockno (buf t ! x)" for x
    unfolding s2 s1 by (simp_all add: bunpin_fields releasesleep_def nth_upd bread_fill_fields)
  have m: "members s2 j = members t j" for j unfolding s2 s1 by simp
  have bk: "bucket s2 j = bucket t j" for j unfolding s2 s1 by simp
  have len: "length (buf s2) = length (buf t)" "length (head s2) = length (head t)"
    unfolding s2 s1
    by (simp_all add: bunpin_fields releasesleep_def bread_fill_fields)
  have l2: "linked M s2" using lt by (simp add: linked_def bk len)
  have fm: "first_match d bn s2 (members s2 (hash M bn)) = Some b"
    using t(3) first_match_cong [of "members t (hash M bn)" s2 t d bn] by (simp add: m f)
  from first_match_Some [OF fm] have ident: "dev (buf s2 ! b) = d" "blockno (buf s2 ! b) = bn"
    by simp_all
  have v: "valid (buf s2 ! b) \<noteq> 0"
    using bread_fill_effect(3) [OF b] b
    unfolding s2 s1 by (simp add: bunpin_def releasesleep_def bread_fill_fields)
  have lk: "lock (buf s2 ! b) = None"
    using b unfolding s2 s1 by (simp add: bunpin_def releasesleep_def bread_fill_fields)
  let ?u = "bpin b s2"
  let ?s3 = "?u\<lparr>buf := (buf ?u)[b := (buf ?u ! b)\<lparr>lock := Some pid'\<rparr>]\<rparr>"
  from b len have b2: "b < length (buf s2)" by simp
  have "bget M pid' d bn s2 = Some (acquiresleep pid' b ?u)" by (rule bget_hit [OF l2 fm])
  moreover have "acquiresleep pid' b ?u = Held ?s3 b"
    using lk b2 by (simp add: acquiresleep_def bpin_def)
  ultimately have g3: "bget M pid' d bn s2 = Some (Held ?s3 b)" by simp
  have v3: "valid (buf ?s3 ! b) \<noteq> 0" using v b2 by (simp add: bpin_def)
  have b3: "b < length (buf ?s3)" using b2 by (simp add: bpin_def)
  from g3 bread_fill_effect(2) [OF b3] v3 have r: "bread M pid' d bn s2 = Some (Held ?s3 b)"
    by (simp add: bread_def)
  have "io ?s3 = io s2" "refcnt (buf ?s3 ! b) = refcnt (buf s2 ! b) + 1"
    using b2 by (simp_all add: bpin_def)
  with r have "\<exists>s3. bread M pid' d bn s2 = Some (Held s3 b) \<and> io s3 = io s2 \<and>
               refcnt (buf s3 ! b) = refcnt (buf s2 ! b) + 1"
    by (intro exI [of _ ?s3] conjI)
  with ident v lk fm show ?thesis by (intro conjI)
qed

lemma acquiresleep_blocked:
  "acquiresleep pid c t = Blocked s' b \<Longrightarrow> s' = t \<and> b = c \<and> lock (buf t ! c) \<noteq> None"
  by (simp add: acquiresleep_def split: if_splits)

lemma bget_io:
  assumes "cache_inv M N s"
    and "bget M pid d bn s = Some (Held s' b) \<or> bget M pid d bn s = Some (Blocked s' b)"
  shows "io s' = io s"
proof -
  from assms(1) have l: "linked M s" by (simp add: cache_inv_def)
  from l have M: "0 < M" by (simp add: linked_def)
  show ?thesis
  proof (rule bget_outcome [OF assms(1), of d bn pid])
    fix c assume g: "bget M pid d bn s = Some (acquiresleep pid c (bpin c s))"
    with assms(2) have a: "acquiresleep pid c (bpin c s) = Held s' b \<or>
        acquiresleep pid c (bpin c s) = Blocked s' b"
      by simp
    from acquiresleep_fields(4) [OF a] show ?thesis by (simp add: bpin_fields)
  next
    fix c assume g: "bget M pid d bn s = Some (acquiresleep pid c (claim d bn c s))"
    with assms(2) have a: "acquiresleep pid c (claim d bn c s) = Held s' b \<or>
        acquiresleep pid c (claim d bn c s) = Blocked s' b"
      by simp
    from acquiresleep_fields(4) [OF a] show ?thesis by (simp add: claim_fields)
  next
    fix j c assume f: "first_free s (members s (hash M (bn + of_nat j))) = Some c"
      and g: "bget M pid d bn s = Some (acquiresleep pid c (moved M d bn c s))"
    from first_free_Some [OF f] members_in_pool [OF l hash_less [OF M]]
    have c: "c < length (buf s)" by blast
    from g assms(2) have a: "acquiresleep pid c (moved M d bn c s) = Held s' b \<or>
        acquiresleep pid c (moved M d bn c s) = Blocked s' b"
      by simp
    from acquiresleep_fields(4) [OF a] show ?thesis by (simp add: moved_fields(2) [OF c])
  next
    assume "bget M pid d bn s = Some (Panic (''no buffer'' @ [CHR 0x0A]))"
    with assms(2) show ?thesis by simp
  next
    assume "bget M pid d bn s = Some (Panic ''bget: no buffers'')"
    with assms(2) show ?thesis by simp
  qed
qed

lemma bget_blocked_lock:
  assumes "cache_inv M N s" "bget M pid d bn s = Some (Blocked s' b)"
  shows "lock (buf s' ! b) \<noteq> None"
proof (rule bget_outcome [OF assms(1), of d bn pid])
  fix c assume "bget M pid d bn s = Some (acquiresleep pid c (bpin c s))"
  with assms(2) have "acquiresleep pid c (bpin c s) = Blocked s' b" by simp
  from acquiresleep_blocked [OF this] show ?thesis by simp
next
  fix c assume "bget M pid d bn s = Some (acquiresleep pid c (claim d bn c s))"
  with assms(2) have "acquiresleep pid c (claim d bn c s) = Blocked s' b" by simp
  from acquiresleep_blocked [OF this] show ?thesis by simp
next
  fix c assume "bget M pid d bn s = Some (acquiresleep pid c (moved M d bn c s))"
  with assms(2) have "acquiresleep pid c (moved M d bn c s) = Blocked s' b" by simp
  from acquiresleep_blocked [OF this] show ?thesis by simp
next
  assume "bget M pid d bn s = Some (Panic (''no buffer'' @ [CHR 0x0A]))"
  with assms(2) show ?thesis by simp
next
  assume "bget M pid d bn s = Some (Panic ''bget: no buffers'')"
  with assms(2) show ?thesis by simp
qed

lemma bget_returns:
  assumes "cache_inv M N s"
  shows "\<exists>r. bget M pid d bn s = Some r"
  by (rule bget_outcome [OF assms, of d bn pid]) simp_all

lemma bread_resume_blocked:
  "lock (buf s ! b) \<noteq> None \<Longrightarrow> bread_resume pid b s = Blocked s b"
  by (simp add: bread_resume_def acquiresleep_def)

lemma bread_resume_held:
  assumes "reachable M N s" "b < N" "length (buf s) = N" "lock (buf s ! b) = None"
  shows "\<exists>s1 s2. acquiresleep pid b s = Held s1 b \<and> bread_resume pid b s = Held s2 b \<and>
           reachable M N s2 \<and> holdingsleep pid b s2 \<and> valid (buf s2 ! b) \<noteq> 0 \<and>
           (valid (buf s ! b) = 0 \<longrightarrow>
              io s2 = io s @ [(b, False)] \<and> valid (buf s2 ! b) = 1) \<and>
           (valid (buf s ! b) \<noteq> 0 \<longrightarrow> s2 = s1 \<and> io s2 = io s)"
proof -
  define s1 where "s1 = s\<lparr>buf := (buf s)[b := (buf s ! b)\<lparr>lock := Some pid\<rparr>]\<rparr>"
  from assms(4) have a: "acquiresleep pid b s = Held s1 b" by (simp add: acquiresleep_def s1_def)
  then have r: "bread_resume pid b s = Held (bread_fill b s1) b" by (simp add: bread_resume_def)
  from assms(2,3) have b1: "b < length (buf s1)" by (simp add: s1_def)
  from assms(2,3) have h1: "holdingsleep pid b s1" by (simp add: holdingsleep_def s1_def)
  note r1 = reachable.wake [OF assms(1,2) a]
  note r2 = reachable.fill [OF r1 assms(2) h1]
  from h1 have h2: "holdingsleep pid b (bread_fill b s1)"
    by (simp add: holdingsleep_def bread_fill_fields)
  from assms(2,3) have v: "valid (buf s1 ! b) = valid (buf s ! b)" and i: "io s1 = io s"
    by (simp_all add: s1_def)
  note e = bread_fill_effect [OF b1, unfolded v i]
  from e(2) i have 3: "valid (buf s ! b) \<noteq> 0 \<longrightarrow> bread_fill b s1 = s1 \<and> io (bread_fill b s1) = io s"
    by simp
  from a r r2 h2 e(3) e(1) 3 show ?thesis
    by (intro exI [of _ s1] exI [of _ "bread_fill b s1"] conjI)
qed

text \<open>
  C2: \<open>bread\<close> calls the disk driver if and only if the buffer it has obtained has its
  \<open>valid\<close> flag at 0, whatever the outcome of \<open>bget\<close> is. In every reachable state
  \<open>bread\<close> has an outcome. When \<open>bget\<close> panics, so does \<open>bread\<close>. When \<open>bget\<close> goes to sleep
  on the sleep-lock, \<open>bread\<close> sleeps in the state \<open>bget\<close> left, in which the lock is taken:
  nothing has been read, and the \<open>valid\<close> flag is untouched. A sleeping \<open>bread\<close> that runs
  again while the lock is still taken changes nothing and sleeps again; once the lock is
  free it takes the lock and then calls the disk driver (once, with \<open>write = 0\<close>, for this
  buffer) exactly when the flag is 0 at that moment, and the flag is 1 after the read;
  with the flag set it only takes the lock. When \<open>bget\<close> returns a buffer at once, \<open>bget\<close>
  itself has made no disk request, \<open>bread\<close> returns the same buffer, and it calls the disk
  driver (once, with \<open>write = 0\<close>) exactly when the flag of the buffer is 0 at that moment;
  the flag is not 0 afterwards (it is 1 after the read), and with the flag set \<open>bread\<close>
  changes nothing. When \<open>bread(d, bn)\<close> has returned buffer \<open>b\<close> and the caller has released
  it, the buffer still carries \<open>(d, bn)\<close> with the flag set, and the next \<open>bread(d, bn)\<close>,
  by any process, returns \<open>b\<close> again without any call of the disk driver.
\<close>

theorem bread_reads_when_invalid:
  assumes "reachable M N s" "0 < M"
  shows "(\<forall>pid d bn. \<exists>r. bread M pid d bn s = Some r) \<and>
         (\<forall>pid d bn e. bget M pid d bn s = Some (Panic e) \<longrightarrow>
            bread M pid d bn s = Some (Panic e)) \<and>
         (\<forall>pid d bn s1 b. bget M pid d bn s = Some (Blocked s1 b) \<longrightarrow>
            bread M pid d bn s = Some (Blocked s1 b) \<and> io s1 = io s \<and>
            b < N \<and> lock (buf s1 ! b) \<noteq> None) \<and>
         (\<forall>pid b. b < N \<longrightarrow>
            (lock (buf s ! b) \<noteq> None \<longrightarrow> bread_resume pid b s = Blocked s b) \<and>
            (lock (buf s ! b) = None \<longrightarrow>
               (\<exists>s1 s2. acquiresleep pid b s = Held s1 b \<and> bread_resume pid b s = Held s2 b \<and>
                  reachable M N s2 \<and> holdingsleep pid b s2 \<and> valid (buf s2 ! b) \<noteq> 0 \<and>
                  (valid (buf s ! b) = 0 \<longrightarrow>
                     io s2 = io s @ [(b, False)] \<and> valid (buf s2 ! b) = 1) \<and>
                  (valid (buf s ! b) \<noteq> 0 \<longrightarrow> s2 = s1 \<and> io s2 = io s)))) \<and>
         (\<forall>pid d bn s1 b. bget M pid d bn s = Some (Held s1 b) \<longrightarrow>
            io s1 = io s \<and>
            (\<exists>s2. bread M pid d bn s = Some (Held s2 b) \<and>
               valid (buf s2 ! b) \<noteq> 0 \<and>
               (valid (buf s1 ! b) = 0 \<longrightarrow>
                  io s2 = io s1 @ [(b, False)] \<and> valid (buf s2 ! b) = 1) \<and>
               (valid (buf s1 ! b) \<noteq> 0 \<longrightarrow> s2 = s1))) \<and>
         (\<forall>pid pid' d bn s1 b s2.
            bread M pid d bn s = Some (Held s1 b) \<and> brelse pid b s1 = Inr s2 \<longrightarrow>
              dev (buf s2 ! b) = d \<and> blockno (buf s2 ! b) = bn \<and> valid (buf s2 ! b) \<noteq> 0 \<and>
              lock (buf s2 ! b) = None \<and>
              first_match d bn s2 (members s2 (hash M bn)) = Some b \<and>
              (\<exists>s3. bread M pid' d bn s2 = Some (Held s3 b) \<and> io s3 = io s2 \<and>
                    refcnt (buf s3 ! b) = refcnt (buf s2 ! b) + 1))"
proof (intro conjI allI impI)
  note inv = reachable_inv [OF assms]
  from inv have N: "length (buf s) = N" by (simp add: cache_inv_def)
  {
    fix pid d bn
    from bget_returns [OF inv, of pid d bn] obtain r where "bget M pid d bn s = Some r" by blast
    then show "\<exists>r. bread M pid d bn s = Some r"
      by (cases r) (simp_all add: bread_def)
  }
  {
    fix pid d bn e
    assume "bget M pid d bn s = Some (Panic e)"
    then show "bread M pid d bn s = Some (Panic e)" by (simp add: bread_def)
  }
  {
    fix pid d bn s1 b
    assume g: "bget M pid d bn s = Some (Blocked s1 b)"
    then have g': "bget M pid d bn s = Some (Held s1 b) \<or> bget M pid d bn s = Some (Blocked s1 b)"
      by simp
    from g show "bread M pid d bn s = Some (Blocked s1 b)" by (simp add: bread_def)
    show "io s1 = io s" by (rule bget_io [OF inv g'])
    show "b < N" by (rule bget_preserves(2) [OF inv g'])
    show "lock (buf s1 ! b) \<noteq> None" by (rule bget_blocked_lock [OF inv g])
  }
  {
    fix pid b
    assume b: "b < N"
    show "bread_resume pid b s = Blocked s b" if "lock (buf s ! b) \<noteq> None"
      by (rule bread_resume_blocked [OF that])
    show "\<exists>s1 s2. acquiresleep pid b s = Held s1 b \<and> bread_resume pid b s = Held s2 b \<and>
                  reachable M N s2 \<and> holdingsleep pid b s2 \<and> valid (buf s2 ! b) \<noteq> 0 \<and>
                  (valid (buf s ! b) = 0 \<longrightarrow>
                     io s2 = io s @ [(b, False)] \<and> valid (buf s2 ! b) = 1) \<and>
                  (valid (buf s ! b) \<noteq> 0 \<longrightarrow> s2 = s1 \<and> io s2 = io s)"
      if "lock (buf s ! b) = None"
      by (rule bread_resume_held [OF assms(1) b N that])
  }
  {
    fix pid d bn s1 b
    assume g: "bget M pid d bn s = Some (Held s1 b)"
    then have g': "bget M pid d bn s = Some (Held s1 b) \<or> bget M pid d bn s = Some (Blocked s1 b)"
      by simp
    show "io s1 = io s" by (rule bget_io [OF inv g'])
    from bget_preserves(1,2) [OF inv g'] have b: "b < length (buf s1)"
      by (simp add: cache_inv_def)
    from g have "bread M pid d bn s = Some (Held (bread_fill b s1) b)"
      by (simp add: bread_def)
    with bread_fill_effect [OF b]
    show "\<exists>s2. bread M pid d bn s = Some (Held s2 b) \<and>
               valid (buf s2 ! b) \<noteq> 0 \<and>
               (valid (buf s1 ! b) = 0 \<longrightarrow>
                  io s2 = io s1 @ [(b, False)] \<and> valid (buf s2 ! b) = 1) \<and>
               (valid (buf s1 ! b) \<noteq> 0 \<longrightarrow> s2 = s1)"
      by (intro exI [of _ "bread_fill b s1"] conjI)
  }
  fix pid pid' d bn s1 b s2
  assume "bread M pid d bn s = Some (Held s1 b) \<and> brelse pid b s1 = Inr s2"
  then have r: "bread M pid d bn s = Some (Held s1 b)" and e: "brelse pid b s1 = Inr s2"
    by simp_all
  note again = bread_again [OF inv r e, of pid']
  from again show "dev (buf s2 ! b) = d" by (rule conjunct1)
  from again show "blockno (buf s2 ! b) = bn" by simp
  from again show "valid (buf s2 ! b) \<noteq> 0" by simp
  from again show "lock (buf s2 ! b) = None" by simp
  from again show "first_match d bn s2 (members s2 (hash M bn)) = Some b" by simp
  from again show "\<exists>s3. bread M pid' d bn s2 = Some (Held s3 b) \<and> io s3 = io s2 \<and>
               refcnt (buf s3 ! b) = refcnt (buf s2 ! b) + 1"
    by (elim conjE)
qed

theorem bread_reads_when_invalid_witness:
  "(0::nat) < 2 \<and> (3::nat) < 4 \<and>
   reachable 2 4 held_block \<and>
   bget 2 8 1 11 held_block = Some (Blocked sleeper 3) \<and>
   bread 2 8 1 11 held_block = Some (Blocked sleeper 3) \<and>
   io sleeper = io held_block \<and> valid (buf sleeper ! 3) = 0 \<and>
   reachable 2 4 sleeper \<and> lock (buf sleeper ! 3) = Some 7 \<and>
   bread_resume 8 3 sleeper = Blocked sleeper 3 \<and>
   reachable 2 4 released_block \<and> lock (buf released_block ! 3) = None \<and>
   valid (buf released_block ! 3) = 0 \<and>
   (\<exists>s2. bread_resume 8 3 released_block = Held s2 3 \<and> holdingsleep 8 3 s2 \<and>
      io s2 = io released_block @ [(3, False)] \<and> valid (buf s2 ! 3) = 1) \<and>
   reachable 2 4 full_pool \<and>
   bget 2 7 1 14 full_pool = Some (Panic ''bget: no buffers'') \<and>
   bread 2 7 1 14 full_pool = Some (Panic ''bget: no buffers'') \<and>
   reachable 2 4 (boot 2 4) \<and>
   bget 2 7 2 5 (boot 2 4) = Some (Held (the_held (bget 2 7 2 5 (boot 2 4))) 3) \<and>
   valid (buf (the_held (bget 2 7 2 5 (boot 2 4))) ! 3) = 0 \<and>
   io (the_held (bget 2 7 2 5 (boot 2 4))) = io (boot 2 4) \<and>
   (\<exists>s2. bread 2 7 2 5 (boot 2 4) = Some (Held s2 3) \<and>
      io s2 = io (the_held (bget 2 7 2 5 (boot 2 4))) @ [(3, False)] \<and> valid (buf s2 ! 3) = 1) \<and>
   bread 2 7 2 5 (boot 2 4) = Some (Held (the_held (bread 2 7 2 5 (boot 2 4))) 3) \<and>
   io (the_held (bread 2 7 2 5 (boot 2 4))) = [(3, False)] \<and>
   brelse 7 3 (the_held (bread 2 7 2 5 (boot 2 4))) =
     Inr (the_state (Some (brelse 7 3 (the_held (bread 2 7 2 5 (boot 2 4)))))) \<and>
   refcnt (buf (the_state (Some (brelse 7 3 (the_held (bread 2 7 2 5 (boot 2 4)))))) ! 3) = 0 \<and>
   (\<exists>s3. bread 2 8 2 5 (the_state (Some (brelse 7 3 (the_held (bread 2 7 2 5 (boot 2 4)))))) =
           Some (Held s3 3) \<and>
         io s3 = io (the_state (Some (brelse 7 3 (the_held (bread 2 7 2 5 (boot 2 4)))))) \<and>
         refcnt (buf s3 ! 3) =
           refcnt (buf (the_state (Some (brelse 7 3 (the_held (bread 2 7 2 5 (boot 2 4)))))) ! 3) + 1)"
proof -
  let ?g = "the_held (bget 2 7 2 5 (boot 2 4))"
  let ?s1 = "the_held (bread 2 7 2 5 (boot 2 4))"
  let ?s2 = "the_state (Some (brelse 7 3 ?s1))"
  have M: "(0::nat) < 2" by simp
  have b: "(3::nat) < 4" by simp
  note th = bread_reads_when_invalid [OF _ M]
  txt \<open>One process holds the block, a second one calls \<open>bread\<close> and sleeps.\<close>
  have "bget 2 7 1 11 (boot 2 4) = Some (Held held_block 3)" by code_simp
  then have rh: "reachable 2 4 held_block" by (rule reachable.bget_held [OF reachable.boot])
  have gb: "bget 2 8 1 11 held_block = Some (Blocked sleeper 3)" by code_simp
  note rs = reachable.bget_blocked [OF rh gb]
  note blk = th [OF rh, THEN conjunct2, THEN conjunct2, THEN conjunct1, THEN spec, THEN spec,
      THEN spec, THEN spec, THEN spec, THEN mp, OF gb]
  have vs: "valid (buf sleeper ! 3) = 0" by code_simp
  have ls: "lock (buf sleeper ! 3) = Some 7" by code_simp
  then have ls': "lock (buf sleeper ! 3) \<noteq> None" by simp
  note again_blocked = th [OF rs, THEN conjunct2, THEN conjunct2, THEN conjunct2, THEN conjunct1,
      THEN spec, THEN spec, THEN mp, OF b, THEN conjunct1, THEN mp, OF ls', of 8]
  txt \<open>The holder releases the block; the sleeper takes the lock and reads the block.\<close>
  have rc: "refcnt (buf sleeper ! 3) \<noteq> 0" by code_simp
  have br: "brelse 7 3 sleeper = Inr released_block" by code_simp
  note rr = reachable.brelse [OF rs b rc br]
  have lr: "lock (buf released_block ! 3) = None" by code_simp
  have vr: "valid (buf released_block ! 3) = 0" by code_simp
  note woken = th [OF rr, THEN conjunct2, THEN conjunct2, THEN conjunct2, THEN conjunct1,
      THEN spec, THEN spec, THEN mp, OF b, THEN conjunct2, THEN mp, OF lr, of 8]
  from woken obtain t1 t2 where w: "bread_resume 8 3 released_block = Held t2 3"
      "holdingsleep 8 3 t2"
      "valid (buf released_block ! 3) = 0 \<longrightarrow>
         io t2 = io released_block @ [(3, False)] \<and> valid (buf t2 ! 3) = 1"
    by (elim exE conjE)
  from w(3) vr have "io t2 = io released_block @ [(3, False)]" "valid (buf t2 ! 3) = 1"
    by simp_all
  with w(1,2) have wk: "\<exists>s2. bread_resume 8 3 released_block = Held s2 3 \<and> holdingsleep 8 3 s2 \<and>
      io s2 = io released_block @ [(3, False)] \<and> valid (buf s2 ! 3) = 1"
    by (intro exI [of _ t2] conjI)
  txt \<open>The pool is exhausted.\<close>
  have 1: "bget 2 7 1 10 (boot 2 4) = Some (Held (the_held (bget 2 7 1 10 (boot 2 4))) 3)"
    by code_simp
  have 2: "bget 2 7 1 11 (the_held (bget 2 7 1 10 (boot 2 4))) =
      Some (Held (the_held (bget 2 7 1 11 (the_held (bget 2 7 1 10 (boot 2 4))))) 2)"
    by code_simp
  have 3: "bget 2 7 1 12 (the_held (bget 2 7 1 11 (the_held (bget 2 7 1 10 (boot 2 4))))) =
      Some (Held (the_held (bget 2 7 1 12 (the_held (bget 2 7 1 11
        (the_held (bget 2 7 1 10 (boot 2 4))))))) 1)"
    by code_simp
  have 4: "bget 2 7 1 13 (the_held (bget 2 7 1 12 (the_held (bget 2 7 1 11
        (the_held (bget 2 7 1 10 (boot 2 4))))))) = Some (Held full_pool 0)"
    by code_simp
  note rf = reachable.bget_held [OF reachable.bget_held [OF reachable.bget_held
        [OF reachable.bget_held [OF reachable.boot 1] 2] 3] 4]
  have gp: "bget 2 7 1 14 full_pool = Some (Panic ''bget: no buffers'')" by code_simp
  note pan = th [OF rf, THEN conjunct2, THEN conjunct1, THEN spec, THEN spec, THEN spec,
      THEN spec, THEN mp, OF gp]
  txt \<open>\<open>bread\<close>, release, \<open>bread\<close> again.\<close>
  have r0: "reachable 2 4 (boot 2 4)" by (rule reachable.boot)
  note last = th [OF r0, THEN conjunct2, THEN conjunct2, THEN conjunct2, THEN conjunct2]
  have g0: "bget 2 7 2 5 (boot 2 4) = Some (Held ?g 3)" by code_simp
  have v0: "valid (buf ?g ! 3) = 0" by code_simp
  note held = last [THEN conjunct1, THEN spec, THEN spec, THEN spec, THEN spec, THEN spec,
      THEN mp, OF g0]
  from held [THEN conjunct2] obtain u where u: "bread 2 7 2 5 (boot 2 4) = Some (Held u 3)"
      "valid (buf ?g ! 3) = 0 \<longrightarrow> io u = io ?g @ [(3, False)] \<and> valid (buf u ! 3) = 1"
    by (elim exE conjE)
  from u(2) v0 have "io u = io ?g @ [(3, False)]" "valid (buf u ! 3) = 1" by simp_all
  with u(1) have rd: "\<exists>s2. bread 2 7 2 5 (boot 2 4) = Some (Held s2 3) \<and>
      io s2 = io ?g @ [(3, False)] \<and> valid (buf s2 ! 3) = 1"
    by (intro exI [of _ u] conjI)
  have 5: "bread 2 7 2 5 (boot 2 4) = Some (Held ?s1 3)" by code_simp
  have 6: "io ?s1 = [(3, False)]" by code_simp
  have 7: "brelse 7 3 ?s1 = Inr ?s2" by code_simp
  have 8: "refcnt (buf ?s2 ! 3) = 0" by code_simp
  from 5 7 have h: "bread 2 7 2 5 (boot 2 4) = Some (Held ?s1 3) \<and> brelse 7 3 ?s1 = Inr ?s2"
    by (intro conjI)
  note t = last [THEN conjunct2, THEN spec, THEN spec, THEN spec,
      THEN spec, THEN spec, THEN spec, THEN spec, THEN mp, OF h, of 8]
  note c = t [THEN conjunct2, THEN conjunct2, THEN conjunct2, THEN conjunct2, THEN conjunct2]
  from M b rh gb blk [THEN conjunct1] blk [THEN conjunct2, THEN conjunct1] vs rs ls
    again_blocked rr lr vr wk rf gp pan r0 g0 v0 held [THEN conjunct1] rd 5 6 7 8 c
  show ?thesis by (intro conjI)
qed

subsection \<open>The probe sequence of the third loop\<close>

lemma hash_probe: "hash M (bn + of_nat l) = ((unat bn + l) mod 2 ^ 32) mod M"
proof -
  have "unat (bn + of_nat l) = (unat bn + unat (of_nat l :: uint)) mod 2 ^ 32"
    by (simp add: unat_word_ariths)
  also have "\<dots> = (unat bn + l mod 2 ^ 32) mod 2 ^ 32"
    by (simp add: unat_of_nat)
  also have "\<dots> = (unat bn + l) mod 2 ^ 32"
    by (simp add: mod_add_right_eq)
  finally show ?thesis by (simp add: hash_def)
qed

lemma probe_no_wrap:
  assumes "unat bn + l < 2 ^ 32" "0 < l" "l < M"
  shows "hash M (bn + of_nat l) \<noteq> hash M bn"
proof
  assume e: "hash M (bn + of_nat l) = hash M bn"
  have "hash M (bn + of_nat l) = ((unat bn + l) mod 2 ^ 32) mod M" by (rule hash_probe)
  with assms(1) have "hash M (bn + of_nat l) = (unat bn + l) mod M" by simp
  with e have "(unat bn + l) mod M = unat bn mod M"
    by (simp add: hash_def)
  then have "M dvd (unat bn + l) - unat bn"
    by (subst (asm) mod_eq_dvd_iff_nat) simp_all
  then have "M dvd l" by simp
  with assms(2,3) show False by (auto dest: dvd_imp_le)
qed

lemma probe_reaches_zero:
  assumes "0 < M" "hash M bn \<noteq> 0"
  shows "\<exists>j. 1 \<le> j \<and> j < M \<and> hash M (bn + of_nat j) = 0 \<and>
           (\<forall>l. 1 \<le> l \<and> l < j \<longrightarrow>
              hash M (bn + of_nat l) \<noteq> hash M bn \<and> hash M (bn + of_nat l) \<noteq> 0)"
proof -
  define B where "B = unat bn"
  define r where "r = B mod M"
  define j1 where "j1 = min (M - r) (2 ^ 32 - B)"
  have B: "B < 2 ^ 32" unfolding B_def using unsigned_less [of bn, where ?'a = nat] by simp
  from assms have r: "0 < r" "r < M" by (simp_all add: r_def B_def hash_def)
  from r B have j1: "1 \<le> j1" "j1 < M" "B + j1 \<le> 2 ^ 32" by (auto simp: j1_def min_def)
  have z: "hash M (bn + of_nat j1) = 0"
  proof (cases "B + j1 = 2 ^ 32")
    case True
    then show ?thesis by (simp add: hash_probe B_def [symmetric])
  next
    case False
    with j1 have lt: "B + j1 < 2 ^ 32" by simp
    then have "j1 = M - r" by (simp add: j1_def)
    then have "B + j1 = M + (B - r)" using r by (simp add: r_def)
    also have "B - r = M * (B div M)" by (simp add: r_def minus_mod_eq_mult_div)
    finally have "(B + j1) mod M = 0" by simp
    with lt show ?thesis by (simp add: hash_probe B_def [symmetric])
  qed
  define Q where "Q j \<longleftrightarrow> 1 \<le> j \<and> hash M (bn + of_nat j) = 0" for j
  from j1 z have "Q j1" by (simp add: Q_def)
  then have Q: "Q (LEAST j. Q j)" and le: "(LEAST j. Q j) \<le> j1"
    by (rule LeastI, rule Least_le)
  have "hash M (bn + of_nat l) \<noteq> hash M bn \<and> hash M (bn + of_nat l) \<noteq> 0"
    if "1 \<le> l \<and> l < (LEAST j. Q j)" for l
  proof
    from that le j1 have "unat bn + l < 2 ^ 32" "0 < l" "l < M" by (simp_all add: B_def)
    then show "hash M (bn + of_nat l) \<noteq> hash M bn" by (rule probe_no_wrap)
    from that have "\<not> Q l" using not_less_Least by blast
    with that show "hash M (bn + of_nat l) \<noteq> 0" by (simp add: Q_def)
  qed
  with Q le j1 show ?thesis
    unfolding Q_def by (intro exI [of _ "LEAST j. Q j"]) (auto simp: Q_def)
qed

lemma bget_takes_from_zero:
  assumes "cache_inv M N s"
    and "first_match d bn s (members s (hash M bn)) = None"
    and "first_free s (members s (hash M bn)) = None"
    and "first_free s (members s 0) = Some c"
    and "\<forall>k. 0 < k \<and> k < M \<longrightarrow> first_free s (members s k) = None"
  shows "bget M pid d bn s = Some (acquiresleep pid c (moved M d bn c s))"
    and "hash M bn \<noteq> 0"
proof -
  from assms(1) have l: "linked M s" and p: "placed M s" by (simp_all add: cache_inv_def)
  from l have M: "0 < M" by (simp add: linked_def)
  show nz: "hash M bn \<noteq> 0"
  proof
    assume "hash M bn = 0"
    with assms(3,4) show False by simp
  qed
  from probe_reaches_zero [OF M nz] obtain j where j: "1 \<le> j" "j < M"
    and z: "hash M (bn + of_nat j) = 0"
    and before: "\<forall>l. 1 \<le> l \<and> l < j \<longrightarrow>
              hash M (bn + of_nat l) \<noteq> hash M bn \<and> hash M (bn + of_nat l) \<noteq> 0"
    by blast
  have "barren M bn s 1 j"
    unfolding barren_def
  proof (intro allI impI)
    fix l assume l: "1 \<le> l \<and> l < j"
    with before have "hash M (bn + of_nat l) \<noteq> hash M bn" "0 < hash M (bn + of_nat l)"
      by simp_all
    with assms(5) hash_less [OF M, of "bn + of_nat l"]
    show "hash M (bn + of_nat l) \<noteq> hash M bn \<and>
        first_free s (members s (hash M (bn + of_nat l))) = None"
      by simp
  qed
  from j have "j \<le> M" by simp
  from steal_skip [OF l \<open>barren M bn s 1 j\<close> j(1) this, of pid d]
  have "steal M pid d bn 1 s = steal M pid d bn j s" .
  also have "\<dots> = Some (acquiresleep pid c (moved M d bn c s))"
    by (rule steal_found [OF l p j(2)]) (use z nz assms(4) in simp_all)
  finally show "bget M pid d bn s = Some (acquiresleep pid c (moved M d bn c s))"
    by (simp add: bget_steal [OF l assms(2,3)])
qed

subsection \<open>The state after binit\<close>

lemma linked_bucket: "linked M s \<Longrightarrow> k < M \<Longrightarrow> bucket s k = Some (members s k)"
  by (auto simp: linked_def members_def)

lemma boot_first_bget:
  assumes "0 < M" "0 < N" "hash M bn \<noteq> 0"
  shows "scan_hit d bn (head (boot M N) ! hash M bn) (boot M N) = Some None"
    and "scan_free (head (boot M N) ! hash M bn) (boot M N) = Some None"
    and "bget M pid d bn (boot M N) = steal M pid d bn 1 (boot M N)"
    and "\<exists>s'. bget M pid d bn (boot M N) = Some (Held s' (N - 1)) \<and>
           bucket s' (hash M bn) = Some [N - 1] \<and> bucket s' 0 = Some (rev [0..<N - 1]) \<and>
           dev (buf s' ! (N - 1)) = d \<and> blockno (buf s' ! (N - 1)) = bn \<and>
           refcnt (buf s' ! (N - 1)) = 1 \<and> valid (buf s' ! (N - 1)) = 0"
proof -
  let ?s = "boot M N" and ?k = "hash M bn" and ?c = "N - 1"
  note inv = boot_inv [OF assms(1), of N]
  note l = boot_linked [OF assms(1), of N]
  note p = boot_placed [OF assms(1), of N]
  have k: "?k < M" "0 < ?k" using assms(1,3) by (simp_all add: hash_less)
  have mk: "members ?s ?k = []" by (rule boot_members(2) [OF assms(1) k(2,1)])
  have m0: "members ?s 0 = ?c # rev [0..<?c]"
  proof -
    from assms(2) have "[0..<N] = [0..<?c] @ [?c]"
      by (metis Suc_diff_1 upt_Suc_append zero_le)
    then show ?thesis by (simp add: boot_members(1) [OF assms(1)])
  qed
  have c: "?c < N" using assms(2) by simp
  have fm: "first_match d bn ?s (members ?s ?k) = None" by (simp add: mk first_match_def)
  have ff: "first_free ?s (members ?s ?k) = None" by (simp add: mk first_free_def)
  note bb = boot_buf [OF assms(1) c]
  have f0: "first_free ?s (members ?s 0) = Some ?c"
    using bb(5) by (simp add: m0 first_free_def)
  have fo: "\<forall>j. 0 < j \<and> j < M \<longrightarrow> first_free ?s (members ?s j) = None"
    by (simp add: boot_members(2) [OF assms(1)] first_free_def)
  from scan_hit_linked [OF l k(1), of d bn] fm
  show "scan_hit d bn (head ?s ! ?k) ?s = Some None" by simp
  from scan_free_linked [OF l k(1)] ff
  show "scan_free (head ?s ! ?k) ?s = Some None" by simp
  show "bget M pid d bn ?s = steal M pid d bn 1 ?s" by (rule bget_steal [OF l fm ff])
  let ?t = "moved M d bn ?c ?s"
  note g = bget_takes_from_zero(1) [OF inv fm ff f0 fo, of pid]
  have cs: "?c < length (buf ?s)" using c by (simp add: boot_state(1) [OF assms(1)])
  note e = moved_fields(5) [OF cs, where M = M and d = d and bn = bn]
  from arg_cong [OF e, of lock] bb(4) have "lock (buf ?t ! ?c) = None"
    by simp
  define s' where "s' = the_held (Some (acquiresleep pid ?c ?t))"
  from \<open>lock (buf ?t ! ?c) = None\<close> have a: "acquiresleep pid ?c ?t = Held s' ?c"
    by (simp add: s'_def acquiresleep_def)
  with g have r: "bget M pid d bn ?s = Some (Held s' ?c)" by simp
  then have r': "bget M pid d bn ?s = Some (Held s' ?c) \<or> bget M pid d bn ?s = Some (Blocked s' ?c)"
    by simp
  from bget_preserves(1) [OF inv r'] have l': "linked M s'" by (simp add: cache_inv_def)
  note eff = bget_steal_effect [OF inv fm ff r']
  have h: "hash M (blockno (buf ?s ! ?c)) = 0"
    using bb(3) by (simp add: hash_zero)
  from eff(5) [unfolded mk] have 1: "members s' ?k = [?c]" .
  from eff(4) [unfolded h m0] have 2: "members s' 0 = rev [0..<?c]" by simp
  from linked_bucket [OF l' k(1)] 1 have b1: "bucket s' ?k = Some [?c]" by simp
  from linked_bucket [OF l' assms(1)] 2 have b2: "bucket s' 0 = Some (rev [0..<?c])" by simp
  from eff(7) have 3: "dev (buf s' ! ?c) = d" "blockno (buf s' ! ?c) = bn"
    "refcnt (buf s' ! ?c) = 1" "valid (buf s' ! ?c) = 0"
    by simp_all
  from r b1 b2 3
  show "\<exists>s'. bget M pid d bn ?s = Some (Held s' ?c) \<and>
           bucket s' ?k = Some [?c] \<and> bucket s' 0 = Some (rev [0..<?c]) \<and>
           dev (buf s' ! ?c) = d \<and> blockno (buf s' ! ?c) = bn \<and>
           refcnt (buf s' ! ?c) = 1 \<and> valid (buf s' ! ?c) = 0"
    by (intro exI [of _ s'] conjI)
qed

text \<open>
  C10: after \<open>binit\<close> on the zeroed structure, the list of bucket \<open>hash(0) = 0\<close> holds every
  buffer of the pool once (\<open>NBUF - 1, \<dots>, 0\<close>: each \<open>put\<close> inserts at the head), every other
  bucket has the empty list, and every buffer has \<open>refcnt = 0\<close>, \<open>valid = 0\<close> and a free
  sleep-lock. Hence the first \<open>bget\<close> for a block number of another bucket finds neither a
  match nor a free buffer in its own bucket, goes through the third loop, and takes
  buffer \<open>NBUF - 1\<close> from bucket 0 into its own bucket.
\<close>

theorem binit_fills_bucket_zero:
  assumes "0 < M"
  shows "hash M 0 = 0 \<and> length (buf (boot M N)) = N \<and>
         bucket (boot M N) 0 = Some (rev [0..<N]) \<and>
         (\<forall>k. 0 < k \<and> k < M \<longrightarrow> bucket (boot M N) k = Some []) \<and>
         (\<forall>x<N. refcnt (buf (boot M N) ! x) = 0 \<and> valid (buf (boot M N) ! x) = 0 \<and>
                lock (buf (boot M N) ! x) = None) \<and>
         (\<forall>pid d bn. hash M bn \<noteq> 0 \<and> 0 < N \<longrightarrow>
            scan_hit d bn (head (boot M N) ! hash M bn) (boot M N) = Some None \<and>
            scan_free (head (boot M N) ! hash M bn) (boot M N) = Some None \<and>
            bget M pid d bn (boot M N) = steal M pid d bn 1 (boot M N) \<and>
            (\<exists>s'. bget M pid d bn (boot M N) = Some (Held s' (N - 1)) \<and>
               bucket s' (hash M bn) = Some [N - 1] \<and> bucket s' 0 = Some (rev [0..<N - 1]) \<and>
               dev (buf s' ! (N - 1)) = d \<and> blockno (buf s' ! (N - 1)) = bn \<and>
               refcnt (buf s' ! (N - 1)) = 1 \<and> valid (buf s' ! (N - 1)) = 0))"
proof (intro conjI allI impI)
  note l = boot_linked [OF assms, of N]
  show "hash M 0 = 0" by (rule hash_zero)
  show "length (buf (boot M N)) = N" by (rule boot_state(1) [OF assms])
  show "bucket (boot M N) 0 = Some (rev [0..<N])"
    using linked_bucket [OF l assms] by (simp add: boot_members(1) [OF assms])
  show "bucket (boot M N) k = Some []" if "0 < k \<and> k < M" for k
    using that linked_bucket [OF l, of k] by (simp add: boot_members(2) [OF assms])
  show "refcnt (buf (boot M N) ! x) = 0" "valid (buf (boot M N) ! x) = 0"
    "lock (buf (boot M N) ! x) = None" if "x < N" for x
    by (simp_all add: boot_buf [OF assms that])
  fix pid d bn
  assume "hash M bn \<noteq> 0 \<and> 0 < N"
  then have h: "0 < N" "hash M bn \<noteq> 0" by simp_all
  note first = boot_first_bget [OF assms h]
  show "scan_hit d bn (head (boot M N) ! hash M bn) (boot M N) = Some None" by (rule first(1))
  show "scan_free (head (boot M N) ! hash M bn) (boot M N) = Some None" by (rule first(2))
  show "bget M pid d bn (boot M N) = steal M pid d bn 1 (boot M N)" by (rule first(3))
  show "\<exists>s'. bget M pid d bn (boot M N) = Some (Held s' (N - 1)) \<and>
               bucket s' (hash M bn) = Some [N - 1] \<and> bucket s' 0 = Some (rev [0..<N - 1]) \<and>
               dev (buf s' ! (N - 1)) = d \<and> blockno (buf s' ! (N - 1)) = bn \<and>
               refcnt (buf s' ! (N - 1)) = 1 \<and> valid (buf s' ! (N - 1)) = 0"
    by (rule first(4))
qed

theorem binit_fills_bucket_zero_witness:
  "(0::nat) < 13 \<and> hash 13 0xFFFFFFFF \<noteq> 0 \<and> (0::nat) < 30 \<and>
   bucket (boot 13 30) 0 = Some (rev [0..<30]) \<and>
   (\<exists>s'. bget 13 7 1 0xFFFFFFFF (boot 13 30) = Some (Held s' (30 - 1)) \<and>
      bucket s' (hash 13 0xFFFFFFFF) = Some [30 - 1] \<and> bucket s' 0 = Some (rev [0..<30 - 1]) \<and>
      dev (buf s' ! (30 - 1)) = 1 \<and> blockno (buf s' ! (30 - 1)) = 0xFFFFFFFF \<and>
      refcnt (buf s' ! (30 - 1)) = 1 \<and> valid (buf s' ! (30 - 1)) = 0)"
proof -
  have M: "(0::nat) < 13" by simp
  have h: "hash 13 0xFFFFFFFF \<noteq> 0 \<and> (0::nat) < 30" by (simp add: hash_def)
  note t = binit_fills_bucket_zero [OF M, of 30]
  note b0 = t [THEN conjunct2, THEN conjunct2, THEN conjunct1]
  note f = t [THEN conjunct2, THEN conjunct2, THEN conjunct2, THEN conjunct2, THEN conjunct2,
      THEN spec, THEN spec, THEN spec, THEN mp, OF h, THEN conjunct2, THEN conjunct2,
      THEN conjunct2, of 7 1]
  from M h b0 f show ?thesis by (elim conjE, intro conjI)
qed

subsection \<open>Exhaustion of the pool\<close>













end
